theory Spec2Isabelle
  imports Main "HOL-Library.AList"
begin

section \<open>Crossword generator (crossword/generate.py)\<close>

text \<open>
  The Python exceptions the solver can raise: an out-of-range string or list index, a
  missing dictionary key, and unpacking \<open>None\<close> as a pair.
\<close>

datatype error = IndexError | KeyError | TypeError

subsection \<open>Grid model\<close>

datatype direction = ACROSS | DOWN

datatype variable =
  Variable (var_i: nat) (var_j: nat) (var_direction: direction) (var_length: nat)

text \<open>
  Modelled from the spec: the class \<open>Crossword\<close> (module \<open>crossword\<close>) is imported by
  generate.py and is not part of the sources. The solver reads three of its attributes:
  the set of variables (a list here, in the set's iteration order), the vocabulary (a
  list in iteration order) and the overlap relation, which maps an ordered pair of
  variables to a pair of character indices or to "no constraint".
\<close>

record crossword =
  variables :: "variable list"
  words :: "string list"
  overlaps :: "variable \<Rightarrow> variable \<Rightarrow> (nat \<times> nat) option"

text \<open>
  Modelled from the spec: \<open>Crossword.neighbors\<close> is not part of the sources. The neighbor
  set of \<open>x\<close> is the set of all other variables sharing a defined overlap with \<open>x\<close>.
\<close>

definition neighbors :: "crossword \<Rightarrow> variable \<Rightarrow> variable list" where
  "neighbors cw x = filter (\<lambda>v. v \<noteq> x \<and> overlaps cw v x \<noteq> None) (variables cw)"

text \<open>
  The well-formedness the solver assumes of the grid model (spec, sections 3 and 4.1):
  the variables are pairwise different, an overlap is defined only between two different
  variables of the puzzle, it is symmetric with the indices swapped, and each index lies
  inside its variable.
\<close>

definition wf_crossword :: "crossword \<Rightarrow> bool" where
  "wf_crossword cw \<longleftrightarrow>
     distinct (variables cw) \<and>
     (\<forall>x y ix iy. overlaps cw x y = Some (ix, iy) \<longrightarrow>
        x \<noteq> y \<and> x \<in> set (variables cw) \<and> y \<in> set (variables cw) \<and>
        overlaps cw y x = Some (iy, ix) \<and> ix < var_length x \<and> iy < var_length y)"

subsection \<open>Domain store\<close>

text \<open>
  \<open>self.domains\<close> is a dictionary from variables to sets of words. A dictionary is an
  association list in insertion order; a set of words is a list in iteration order.
\<close>

type_synonym domains = "(variable \<times> string list) list"

text \<open>\<open>__init__\<close>: every variable starts with a copy of the whole vocabulary.\<close>

definition init_domains :: "crossword \<Rightarrow> domains" where
  "init_domains cw = map (\<lambda>var. (var, words cw)) (variables cw)"

text \<open>
  \<open>enforce_node_consistency\<close>: for every key, collect the values whose length differs
  from the key's length, then remove each of them from the key's set.
\<close>

definition node_toRemove :: "variable \<Rightarrow> string list \<Rightarrow> string list" where
  "node_toRemove key d = filter (\<lambda>value. var_length key \<noteq> length value) d"

definition remove_values :: "string list \<Rightarrow> string list \<Rightarrow> string list" where
  "remove_values toRemove d = fold removeAll toRemove d"

definition enforce_node_consistency :: "domains \<Rightarrow> domains" where
  "enforce_node_consistency doms =
     map (\<lambda>(key, d). (key, remove_values (node_toRemove key d) d)) doms"

subsection \<open>Arc consistency\<close>

text \<open>
  The inner loop of \<open>revise\<close>: scan the words of \<open>y\<close> until one has \<open>letter\<close> at index
  \<open>iy\<close>. Each word scanned is indexed without a bounds check.
\<close>

fun find_support :: "nat \<Rightarrow> char \<Rightarrow> string list \<Rightarrow> error + bool" where
  "find_support iy letter [] = Inr False"
| "find_support iy letter (valuey # rest) =
     (if iy < length valuey
      then (if valuey ! iy = letter then Inr True else find_support iy letter rest)
      else Inl IndexError)"

text \<open>
  The outer loop of \<open>revise\<close>: the list \<open>toRemove\<close> of the words of \<open>x\<close> without support.
  For each word of \<open>x\<close> the loop first indexes the word and then looks up
  \<open>self.domains[y]\<close>, which is given here as the result of that lookup.
\<close>

fun revise_toRemove ::
  "nat \<Rightarrow> nat \<Rightarrow> string list \<Rightarrow> string list option \<Rightarrow> error + string list" where
  "revise_toRemove ix iy [] dy = Inr []"
| "revise_toRemove ix iy (valuex # rest) dy =
     (if ix < length valuex
      then (case dy of
              None \<Rightarrow> Inl KeyError
            | Some valuesy \<Rightarrow>
                (case find_support iy (valuex ! ix) valuesy of
                   Inl e \<Rightarrow> Inl e
                 | Inr consistent \<Rightarrow>
                     (case revise_toRemove ix iy rest dy of
                        Inl e \<Rightarrow> Inl e
                      | Inr toRemove \<Rightarrow>
                          Inr (if consistent then toRemove else valuex # toRemove))))
      else Inl IndexError)"

text \<open>
  \<open>revise\<close> returns the updated domains and the flag \<open>revised\<close>, which the removal loop
  sets once for every removed word.
\<close>

definition revise :: "crossword \<Rightarrow> domains \<Rightarrow> variable \<Rightarrow> variable \<Rightarrow> error + (domains \<times> bool)" where
  "revise cw doms x y =
     (case overlaps cw x y of
        None \<Rightarrow> Inr (doms, False)
      | Some (ix, iy) \<Rightarrow>
          (case map_of doms x of
             None \<Rightarrow> Inl KeyError
           | Some dx \<Rightarrow>
               (case revise_toRemove ix iy dx (map_of doms y) of
                  Inl e \<Rightarrow> Inl e
                | Inr toRemove \<Rightarrow>
                    Inr (AList.update x (remove_values toRemove dx) doms,
                         toRemove \<noteq> []))))"

text \<open>The seed of \<open>ac3\<close> when no arc list is given: both directions of every neighbor pair.\<close>

definition all_arcs :: "crossword \<Rightarrow> domains \<Rightarrow> (variable \<times> variable) list" where
  "all_arcs cw doms =
     concat (map (\<lambda>variable.
       concat (map (\<lambda>neighbour. [(variable, neighbour), (neighbour, variable)])
                   (neighbors cw variable)))
       (map fst doms))"

text \<open>The arcs \<open>ac3\<close> appends to the queue after a revision of \<open>x\<close>.\<close>

definition requeue :: "crossword \<Rightarrow> variable \<Rightarrow> (variable \<times> variable) list" where
  "requeue cw x = concat (map (\<lambda>neighbour. [(neighbour, x), (x, neighbour)]) (neighbors cw x))"

text \<open>The number of words in all domains together, which every pruning revision lowers.\<close>

definition total_size :: "domains \<Rightarrow> nat" where
  "total_size doms = sum_list (map (\<lambda>(key, d). length d) doms)"


text \<open>
  The \<open>while\<close> loop of \<open>ac3\<close>. The queue is a Python list used as a stack: \<open>pop\<close> takes
  its last element and \<open>append\<close> adds at the end. The loop returns the domains it leaves
  behind together with the value \<open>ac3\<close> returns.
\<close>

function ac3_loop ::
  "crossword \<Rightarrow> domains \<Rightarrow> (variable \<times> variable) list \<Rightarrow> nat \<Rightarrow> error + (domains \<times> bool)" where
  "ac3_loop cw doms queue changes =
     (if queue = [] then Inr (doms, changes \<noteq> 0)
      else
        (let arc = last queue; queue' = butlast queue in
         case revise cw doms (fst arc) (snd arc) of
           Inl e \<Rightarrow> Inl e
         | Inr (doms', revised) \<Rightarrow>
             if revised
             then (case map_of doms' (fst arc) of
                     None \<Rightarrow> Inl KeyError
                   | Some d \<Rightarrow>
                       if length d = 0 then Inr (doms', False)
                       else ac3_loop cw doms' (queue' @ requeue cw (fst arc)) (changes + 1))
             else ac3_loop cw doms' queue' changes))"
  by pat_completeness auto

definition ac3 ::
  "crossword \<Rightarrow> domains \<Rightarrow> (variable \<times> variable) list option \<Rightarrow> error + (domains \<times> bool)" where
  "ac3 cw doms arcs =
     ac3_loop cw doms (case arcs of None \<Rightarrow> all_arcs cw doms | Some queue \<Rightarrow> queue) 0"

subsection \<open>Search engine\<close>

text \<open>
  The assignment is a dictionary from variables to words: an association list in insertion
  order. \<open>assignment[var] = value\<close> is \<open>AList.update\<close> (an existing key keeps its place, a
  new key goes to the end) and \<open>del assignment[var]\<close> is \<open>AList.delete\<close>.
\<close>

type_synonym assignment = "(variable \<times> string) list"

definition assignment_complete :: "crossword \<Rightarrow> assignment \<Rightarrow> bool" where
  "assignment_complete cw a = (\<not> length a \<noteq> length (variables cw))"

text \<open>
  The inner loop of \<open>consistent\<close> over the neighbours of \<open>key\<close>, whose word is \<open>w\<close>.
  Unpacking a missing overlap and indexing past the end of a word raise.
\<close>

fun check_neighbours ::
  "crossword \<Rightarrow> assignment \<Rightarrow> variable \<Rightarrow> string \<Rightarrow> variable list \<Rightarrow> error + bool" where
  "check_neighbours cw a key w [] = Inr True"
| "check_neighbours cw a key w (neighbour # rest) =
     (case map_of a neighbour of
        None \<Rightarrow> check_neighbours cw a key w rest
      | Some wn \<Rightarrow>
          (case overlaps cw key neighbour of
             None \<Rightarrow> Inl TypeError
           | Some (i, j) \<Rightarrow>
               if i < length w \<and> j < length wn
               then (if w ! i \<noteq> wn ! j then Inr False
                     else check_neighbours cw a key w rest)
               else Inl IndexError))"

text \<open>The outer loop of \<open>consistent\<close>; \<open>vals\<close> is the set of words seen so far.\<close>

fun consistent_loop ::
  "crossword \<Rightarrow> assignment \<Rightarrow> string list \<Rightarrow> assignment \<Rightarrow> error + bool" where
  "consistent_loop cw a vals [] = Inr True"
| "consistent_loop cw a vals ((key, w) # rest) =
     (if w \<in> set vals then Inr False
      else if \<not> var_length key = length w then Inr False
      else (case check_neighbours cw a key w (neighbors cw key) of
              Inl e \<Rightarrow> Inl e
            | Inr ok \<Rightarrow>
                if ok then consistent_loop cw a (w # vals) rest else Inr False))"

definition consistent :: "crossword \<Rightarrow> assignment \<Rightarrow> error + bool" where
  "consistent cw a = consistent_loop cw a [] a"

text \<open>
  \<open>order_domain_values\<close>: for each value of \<open>var\<close>, count the unassigned neighbours whose
  domain contains it, then sort by that count (Python's sort is stable).
\<close>

fun count_neighbours :: "domains \<Rightarrow> string \<Rightarrow> variable list \<Rightarrow> error + nat" where
  "count_neighbours doms val [] = Inr 0"
| "count_neighbours doms val (neighbour # rest) =
     (case map_of doms neighbour of
        None \<Rightarrow> Inl KeyError
      | Some d \<Rightarrow>
          (case count_neighbours doms val rest of
             Inl e \<Rightarrow> Inl e
           | Inr c \<Rightarrow> Inr (if val \<in> set d then c + 1 else c)))"

fun value_counts :: "domains \<Rightarrow> variable list \<Rightarrow> string list \<Rightarrow> error + (nat \<times> string) list" where
  "value_counts doms ns [] = Inr []"
| "value_counts doms ns (val # rest) =
     (case count_neighbours doms val ns of
        Inl e \<Rightarrow> Inl e
      | Inr c \<Rightarrow>
          (case value_counts doms ns rest of
             Inl e \<Rightarrow> Inl e
           | Inr counts \<Rightarrow> Inr ((c, val) # counts)))"

definition order_domain_values ::
  "crossword \<Rightarrow> domains \<Rightarrow> variable \<Rightarrow> assignment \<Rightarrow> error + string list" where
  "order_domain_values cw doms var a =
     (case map_of doms var of
        None \<Rightarrow> Inl KeyError
      | Some vals \<Rightarrow>
          (case value_counts doms
                  (filter (\<lambda>n. map_of a n = None) (neighbors cw var)) vals of
             Inl e \<Rightarrow> Inl e
           | Inr counts \<Rightarrow> Inr (map snd (sort_key fst counts))))"

text \<open>
  The loop of \<open>select_unassigned_variable\<close>: \<open>minCount\<close> starts at \<open>-1\<close>, and a variable is
  appended to \<open>listOfVars\<close> when it is the first unassigned one or has a strictly smaller
  domain than every one before it.
\<close>

fun select_loop ::
  "domains \<Rightarrow> assignment \<Rightarrow> int \<Rightarrow> variable list \<Rightarrow> variable list \<Rightarrow> error + variable list" where
  "select_loop doms a minCount listOfVars [] = Inr listOfVars"
| "select_loop doms a minCount listOfVars (var # rest) =
     (if map_of a var \<noteq> None then select_loop doms a minCount listOfVars rest
      else (case map_of doms var of
              None \<Rightarrow> Inl KeyError
            | Some d \<Rightarrow>
                if minCount < 0
                then select_loop doms a (int (length d)) (listOfVars @ [var]) rest
                else if int (length d) < minCount
                then select_loop doms a (int (length d)) (listOfVars @ [var]) rest
                else select_loop doms a minCount listOfVars rest))"

definition select_unassigned_variable ::
  "crossword \<Rightarrow> domains \<Rightarrow> assignment \<Rightarrow> error + variable" where
  "select_unassigned_variable cw doms a =
     (case select_loop doms a (- 1) [] (variables cw) of
        Inl e \<Rightarrow> Inl e
      | Inr listOfVars \<Rightarrow>
          if listOfVars = [] then Inl IndexError else Inr (last listOfVars))"

text \<open>
  \<open>backtrack\<close> mutates the dictionary it is given. The model returns the dictionary as the
  call leaves it, with a flag: \<open>True\<close> when the call returns that dictionary, \<open>False\<close>
  when it returns \<open>None\<close>. \<open>try_values\<close> is the \<open>for\<close> loop over the ordered values; the
  \<open>del\<close> statement belongs to the branch taken when the assignment is consistent.
\<close>

function backtrack :: "crossword \<Rightarrow> domains \<Rightarrow> assignment \<Rightarrow> error + (assignment \<times> bool)"
  and try_values ::
    "crossword \<Rightarrow> domains \<Rightarrow> variable \<Rightarrow> string list \<Rightarrow> assignment \<Rightarrow> error + (assignment \<times> bool)"
  where
  "backtrack cw doms a =
     (if assignment_complete cw a then Inr (a, True)
      else (case select_unassigned_variable cw doms a of
              Inl e \<Rightarrow> Inl e
            | Inr var \<Rightarrow>
                (case order_domain_values cw doms var a of
                   Inl e \<Rightarrow> Inl e
                 | Inr vals \<Rightarrow> try_values cw doms var vals a)))"
| "try_values cw doms var [] a = Inr (a, False)"
| "try_values cw doms var (val # rest) a =
     (case consistent cw (AList.update var val a) of
        Inl e \<Rightarrow> Inl e
      | Inr ok \<Rightarrow>
          if ok
          then (case backtrack cw doms (AList.update var val a) of
                  Inl e \<Rightarrow> Inl e
                | Inr (a', found) \<Rightarrow>
                    if found then Inr (a', True)
                    else if map_of a' var = None then Inl KeyError
                    else try_values cw doms var rest (AList.delete var a'))
          else try_values cw doms var rest (AList.update var val a))"
  by pat_completeness auto

text \<open>\<open>solve\<close>: node consistency, \<open>ac3\<close> (its result is not looked at), then the search.\<close>

definition solve :: "crossword \<Rightarrow> error + (assignment \<times> bool)" where
  "solve cw =
     (case ac3 cw (enforce_node_consistency (init_domains cw)) None of
        Inl e \<Rightarrow> Inl e
      | Inr (doms, _) \<Rightarrow> backtrack cw doms [])"

subsection \<open>Notions the specification uses\<close>

text \<open>
  Word \<open>w\<close> of \<open>x\<close> and word \<open>v\<close> of \<open>y\<close> agree at the overlap \<open>(ix, iy)\<close>: both have the
  position and the characters there are equal.
\<close>

definition agrees :: "nat \<Rightarrow> nat \<Rightarrow> string \<Rightarrow> string \<Rightarrow> bool" where
  "agrees ix iy w v \<longleftrightarrow> ix < length w \<and> iy < length v \<and> w ! ix = v ! iy"

definition supported :: "nat \<Rightarrow> nat \<Rightarrow> string list \<Rightarrow> string \<Rightarrow> bool" where
  "supported ix iy dy w \<longleftrightarrow> list_ex (agrees ix iy w) dy"

text \<open>
  The domain of a variable as a list and as a set of words; a missing key has no words.
\<close>

definition words_of :: "domains \<Rightarrow> variable \<Rightarrow> string list" where
  "words_of doms x = (case map_of doms x of None \<Rightarrow> [] | Some d \<Rightarrow> d)"

definition dom_of :: "domains \<Rightarrow> variable \<Rightarrow> string set" where
  "dom_of doms x = (case map_of doms x of None \<Rightarrow> {} | Some d \<Rightarrow> set d)"

text \<open>The keys of a dictionary, and the variables an assignment leaves unassigned.\<close>

definition keys :: "('k \<times> 'v) list \<Rightarrow> 'k set" where
  "keys a = fst ` set a"

definition unassigned :: "crossword \<Rightarrow> assignment \<Rightarrow> variable set" where
  "unassigned cw a = {v \<in> set (variables cw). v \<notin> keys a}"

text \<open>Every word of every domain has the length of its variable.\<close>

definition node_consistent :: "domains \<Rightarrow> bool" where
  "node_consistent doms \<longleftrightarrow>
     list_all (\<lambda>(key, d). list_all (\<lambda>w. length w = var_length key) d) doms"

text \<open>
  Every word left for \<open>x\<close> has a word of \<open>y\<close> agreeing with it, for every ordered pair
  with a defined overlap.
\<close>

definition arc_consistent :: "crossword \<Rightarrow> domains \<Rightarrow> bool" where
  "arc_consistent cw doms \<longleftrightarrow>
     (\<forall>x y ix iy. overlaps cw x y = Some (ix, iy) \<longrightarrow>
        (\<forall>w \<in> dom_of doms x. \<exists>v \<in> dom_of doms y. agrees ix iy w v))"

text \<open>Some domain holds other words after than before; some non-empty domain is empty after.\<close>

definition changed :: "domains \<Rightarrow> domains \<Rightarrow> bool" where
  "changed doms doms' \<longleftrightarrow> (\<exists>x. dom_of doms' x \<noteq> dom_of doms x)"

definition emptied :: "domains \<Rightarrow> domains \<Rightarrow> bool" where
  "emptied doms doms' \<longleftrightarrow> (\<exists>x. dom_of doms x \<noteq> {} \<and> dom_of doms' x = {})"

text \<open>
  A complete, consistent assignment: one word for every variable of the puzzle, of the
  variable's length, agreeing at every overlap, no word used twice.
\<close>

definition valid_solution :: "crossword \<Rightarrow> assignment \<Rightarrow> bool" where
  "valid_solution cw a \<longleftrightarrow>
     distinct (map fst a) \<and> keys a = set (variables cw) \<and>
     (\<forall>(x, w) \<in> set a. length w = var_length x) \<and>
     (\<forall>x y ix iy wx wy. overlaps cw x y = Some (ix, iy) \<longrightarrow>
        map_of a x = Some wx \<longrightarrow> map_of a y = Some wy \<longrightarrow> agrees ix iy wx wy) \<and>
     distinct (map snd a)"

text \<open>Every word of the assignment is in the domain of its variable.\<close>

definition within :: "assignment \<Rightarrow> domains \<Rightarrow> bool" where
  "within a doms \<longleftrightarrow> (\<forall>(x, w) \<in> set a. w \<in> dom_of doms x)"

text \<open>A complete, consistent assignment over given domains.\<close>

definition solution_over :: "crossword \<Rightarrow> domains \<Rightarrow> assignment \<Rightarrow> bool" where
  "solution_over cw doms a \<longleftrightarrow> valid_solution cw a \<and> within a doms"

text \<open>
  The arc from \<open>x\<close> to \<open>y\<close> with overlap \<open>(ix, iy)\<close> is consistent: every word of \<open>x\<close> has
  an agreeing word of \<open>y\<close>.
\<close>

definition arc_ok :: "domains \<Rightarrow> variable \<Rightarrow> variable \<Rightarrow> nat \<Rightarrow> nat \<Rightarrow> bool" where
  "arc_ok doms x y ix iy \<longleftrightarrow> (\<forall>w \<in> dom_of doms x. \<exists>v \<in> dom_of doms y. agrees ix iy w v)"

text \<open>
  The invariant of the propagation loop: an arc out of a variable with a domain is either
  waiting in the queue or consistent.
\<close>

definition arcs_pending :: "crossword \<Rightarrow> domains \<Rightarrow> (variable \<times> variable) list \<Rightarrow> bool" where
  "arcs_pending cw doms q \<longleftrightarrow>
     (\<forall>x y ix iy. overlaps cw x y = Some (ix, iy) \<longrightarrow> x \<in> keys doms \<longrightarrow>
        (x, y) \<in> set q \<or> arc_ok doms x y ix iy)"

text \<open>
  The scan of the words of \<open>y\<close> for \<open>letter\<close> comes to a word that has no position \<open>iy\<close>:
  such a word stands in the list after words that all have the position and another
  character there.
\<close>

definition short_word_reached :: "nat \<Rightarrow> char \<Rightarrow> string list \<Rightarrow> bool" where
  "short_word_reached iy letter dy \<longleftrightarrow>
     (\<exists>pre v post. dy = pre @ v # post \<and> length v \<le> iy \<and>
        (\<forall>u \<in> set pre. iy < length u \<and> u ! iy \<noteq> letter))"

text \<open>The number of neighbours of a variable.\<close>

definition degree :: "crossword \<Rightarrow> variable \<Rightarrow> nat" where
  "degree cw x = length (neighbors cw x)"

text \<open>
  The assignments the search works on: a dictionary (no key twice) whose keys are variables
  of the puzzle.
\<close>

definition search_inv :: "crossword \<Rightarrow> assignment \<Rightarrow> bool" where
  "search_inv cw a \<longleftrightarrow> distinct (map fst a) \<and> keys a \<subseteq> set (variables cw)"

subsection \<open>Example puzzles\<close>

text \<open>
  A corner: a 3-letter ACROSS slot and a DOWN slot of length \<open>n\<close> starting in the same
  cell, so that their first letters must agree.
\<close>

definition across3 :: variable where "across3 = Variable 0 0 ACROSS 3"

definition down :: "nat \<Rightarrow> variable" where "down n = Variable 0 0 DOWN n"

definition corner :: "nat \<Rightarrow> string list \<Rightarrow> crossword" where
  "corner n ws =
     \<lparr> variables = [across3, down n], words = ws,
       overlaps = (\<lambda>x y. if x = across3 \<and> y = down n then Some (0, 0)
                         else if x = down n \<and> y = across3 then Some (0, 0)
                         else None) \<rparr>"

text \<open>Two 3-letter ACROSS slots in rows 0 and 2, which share no cell.\<close>

definition across3' :: variable where "across3' = Variable 2 0 ACROSS 3"

definition two_rows :: "string list \<Rightarrow> crossword" where
  "two_rows ws =
     \<lparr> variables = [across3, across3'], words = ws, overlaps = (\<lambda>x y. None) \<rparr>"

text \<open>
  A 4-letter ACROSS slot in row 1 whose last cell is the second cell of a 2-letter DOWN
  slot in column 3.
\<close>

definition across4 :: variable where "across4 = Variable 1 0 ACROSS 4"

definition down2 :: variable where "down2 = Variable 0 3 DOWN 2"

definition tee :: "string list \<Rightarrow> crossword" where
  "tee ws =
     \<lparr> variables = [across4, down2], words = ws,
       overlaps = (\<lambda>x y. if x = across4 \<and> y = down2 then Some (3, 1)
                         else if x = down2 \<and> y = across4 then Some (1, 3)
                         else None) \<rparr>"

text \<open>
  An isolated 2-letter ACROSS slot in row 0, and in row 2 a 3-letter ACROSS slot whose
  last cell is the first cell of a 2-letter DOWN slot.
\<close>

definition lone2 :: variable where "lone2 = Variable 0 0 ACROSS 2"

definition row3 :: variable where "row3 = Variable 2 0 ACROSS 3"

definition col2 :: variable where "col2 = Variable 2 2 DOWN 2"

definition three_slots :: "string list \<Rightarrow> crossword" where
  "three_slots ws =
     \<lparr> variables = [lone2, row3, col2], words = ws,
       overlaps = (\<lambda>x y. if x = row3 \<and> y = col2 then Some (2, 0)
                         else if x = col2 \<and> y = row3 then Some (0, 2)
                         else None) \<rparr>"

section \<open>Termination of the propagation loop\<close>

lemma remove_values_filter: "remove_values rs d = filter (\<lambda>w. w \<notin> set rs) d"
  unfolding remove_values_def
proof (induction rs arbitrary: d)
  case Nil
  show ?case by simp
next
  case (Cons r rs)
  have "filter (\<lambda>w. w \<notin> set rs) (removeAll r d) = filter (\<lambda>w. w \<notin> set (r # rs)) d"
    by (induction d) auto
  with Cons show ?case by simp
qed

lemma find_support_Inr:
  "find_support iy letter dy = Inr b \<Longrightarrow>
     b = (\<exists>v \<in> set dy. iy < length v \<and> v ! iy = letter)"
  by (induction dy) (auto split: if_splits)

lemma revise_toRemove_Inr:
  "revise_toRemove ix iy dx (map_of doms y) = Inr rs \<Longrightarrow>
     rs = filter (\<lambda>w. \<not> supported ix iy (words_of doms y) w) dx \<and>
     (\<forall>w \<in> set dx. ix < length w)"
proof (induction dx arbitrary: rs)
  case Nil
  then show ?case by simp
next
  case (Cons w dx)
  from Cons.prems obtain dy c rs' where
    lw: "ix < length w" and dy: "map_of doms y = Some dy"
    and fs: "find_support iy (w ! ix) dy = Inr c"
    and rec: "revise_toRemove ix iy dx (map_of doms y) = Inr rs'"
    and rs: "rs = (if c then rs' else w # rs')"
    by (auto split: if_splits sum.splits option.splits)
  from dy have wo: "words_of doms y = dy" by (simp add: words_of_def)
  from find_support_Inr[OF fs] lw have "c = supported ix iy (words_of doms y) w"
    unfolding wo by (auto simp: supported_def agrees_def list_ex_iff)
  with Cons.IH[OF rec] rs lw show ?case by auto
qed

lemma total_size_update:
  "map_of doms x = Some d \<Longrightarrow>
     total_size (AList.update x d' doms) + length d = total_size doms + length d'"
  by (induction doms) (auto simp: total_size_def split: if_splits)

lemma length_filter_less:
  "w \<in> set d \<Longrightarrow> \<not> P w \<Longrightarrow> length (filter P d) < length d"
  by (induction d) (auto simp: less_Suc_eq_le)

lemma revise_True_smaller:
  assumes "revise cw doms x y = Inr (doms', True)"
  shows "total_size doms' < total_size doms"
proof -
  from assms obtain ix iy dx rs where
    dx: "map_of doms x = Some dx" and
    rs: "revise_toRemove ix iy dx (map_of doms y) = Inr rs" and ne: "rs \<noteq> []" and
    d': "doms' = AList.update x (remove_values rs dx) doms"
    by (auto simp: revise_def split: option.splits sum.splits)
  from revise_toRemove_Inr[OF rs] ne obtain w where "w \<in> set rs" "w \<in> set dx"
    by (auto simp: filter_empty_conv)
  then have "length (remove_values rs dx) < length dx"
    by (simp add: remove_values_filter length_filter_less)
  with total_size_update[OF dx, of "remove_values rs dx"] d' show ?thesis by simp
qed

lemma revise_False_same:
  assumes "revise cw doms x y = Inr (doms', False)"
  shows "doms' = doms"
  using assms
  by (auto simp: revise_def remove_values_def AList.update_triv split: option.splits sum.splits)

termination ac3_loop
proof (relation "measures [\<lambda>(cw, doms, queue, changes). total_size doms,
                           \<lambda>(cw, doms, queue, changes). length queue]", goal_cases)
  case 1
  show ?case by simp
next
  case (2 cw doms queue changes arc queue' p doms' revised d)
  then show ?case using revise_True_smaller by auto
next
  case (3 cw doms queue changes arc queue' p doms' revised)
  then have "doms' = doms"
    using revise_False_same[of cw doms "fst arc" "snd arc" doms'] by simp
  with 3 show ?case by (cases queue rule: rev_cases) auto
qed

declare ac3_loop.simps [simp del]

section \<open>Termination of the search\<close>



lemma map_of_None_keys: "map_of a k = None \<longleftrightarrow> k \<notin> keys a"
  by (simp add: keys_def map_of_eq_None_iff)

lemma keys_update: "keys (AList.update k v a) = insert k (keys a)"
  by (simp add: keys_def AList.dom_update)

lemma keys_delete: "keys (AList.delete k a) = keys a - {k}"
  by (auto simp: keys_def AList.delete_eq image_iff)

lemma select_loop_sound:
  "select_loop doms a m l vars = Inr l' \<Longrightarrow>
     set l' \<subseteq> set l \<union> {v \<in> set vars. v \<notin> keys a}"
proof (induction vars arbitrary: m l)
  case Nil
  then show ?case by simp
next
  case (Cons v vars)
  show ?case
  proof (cases "map_of a v = None")
    case False
    with Cons.prems have "select_loop doms a m l vars = Inr l'" by simp
    from Cons.IH[OF this] show ?thesis by auto
  next
    case True
    then have nk: "v \<notin> keys a" by (simp add: map_of_None_keys)
    from Cons.prems True obtain d where d: "map_of doms v = Some d"
      by (auto split: option.splits)
    with Cons.prems True
    consider "select_loop doms a (int (length d)) (l @ [v]) vars = Inr l'"
      | "select_loop doms a m l vars = Inr l'"
      by (auto split: if_splits)
    then show ?thesis
    proof cases
      case 1
      from Cons.IH[OF this] nk show ?thesis by auto
    next
      case 2
      from Cons.IH[OF this] show ?thesis by auto
    qed
  qed
qed

lemma select_unassigned_variable_sound:
  assumes "select_unassigned_variable cw doms a = Inr var"
  shows "var \<in> set (variables cw) \<and> var \<notin> keys a"
proof -
  from assms obtain l where l: "select_loop doms a (- 1) [] (variables cw) = Inr l"
    and ne: "l \<noteq> []" and var: "var = last l"
    by (auto simp: select_unassigned_variable_def split: sum.splits if_splits)
  from ne var have "var \<in> set l" by simp
  with select_loop_sound[OF l] show ?thesis by auto
qed


lemma finite_unassigned [simp]: "finite (unassigned cw a)"
  by (simp add: unassigned_def)

lemma backtrack_keys_dom:
  "backtrack_try_values_dom (Inl (cw, doms, a)) \<Longrightarrow>
     backtrack cw doms a = Inr (a', b) \<Longrightarrow> keys a \<subseteq> keys a'"
  "backtrack_try_values_dom (Inr (cw, doms, var, vals, a)) \<Longrightarrow>
     try_values cw doms var vals a = Inr (a', b) \<Longrightarrow> keys a - {var} \<subseteq> keys a'"
proof (induction cw doms a and cw doms var vals a arbitrary: a' b and a' b
       rule: backtrack_try_values.pinduct)
  case (1 cw doms a)
  show ?case
  proof (cases "assignment_complete cw a")
    case True
    with 1(1,3) show ?thesis by (simp add: backtrack.psimps)
  next
    case False
    with 1(1,3) obtain var vals where
      sel: "select_unassigned_variable cw doms a = Inr var" and
      ord: "order_domain_values cw doms var a = Inr vals" and
      tv: "try_values cw doms var vals a = Inr (a', b)"
      by (auto simp: backtrack.psimps split: sum.splits)
    from 1(2)[OF False sel ord tv] select_unassigned_variable_sound[OF sel]
    show ?thesis by auto
  qed
next
  case (2 cw doms var a)
  then show ?case by (auto simp: try_values.psimps)
next
  case (3 cw doms var val rest a)
  let ?a1 = "AList.update var val a"
  from 3(1,5) obtain ok where ok: "consistent cw ?a1 = Inr ok"
    by (auto simp: try_values.psimps split: sum.splits)
  show ?case
  proof (cases ok)
    case False
    with 3(1,5) ok have "try_values cw doms var rest ?a1 = Inr (a', b)"
      by (simp add: try_values.psimps)
    from 3(4)[OF ok False this] show ?thesis by (auto simp: keys_update)
  next
    case True
    with 3(1,5) ok obtain a2 found where
      bt: "backtrack cw doms ?a1 = Inr (a2, found)"
      by (auto simp: try_values.psimps split: sum.splits)
    from 3(2)[OF ok True bt] have sub: "keys ?a1 \<subseteq> keys a2" .
    show ?thesis
    proof (cases found)
      case True
      with 3(1,5) ok \<open>ok\<close> bt have "a' = a2" by (simp add: try_values.psimps)
      with sub show ?thesis by (auto simp: keys_update)
    next
      case False
      with 3(1,5) ok \<open>ok\<close> bt have
        ne: "map_of a2 var \<noteq> None" and
        tv: "try_values cw doms var rest (AList.delete var a2) = Inr (a', b)"
        by (auto simp: try_values.psimps split: if_splits)
      from 3(3)[OF ok \<open>ok\<close> bt refl False ne tv]
      have "keys (AList.delete var a2) - {var} \<subseteq> keys a'" .
      with sub show ?thesis by (auto simp: keys_update keys_delete)
    qed
  qed
qed


lemma unassigned_update:
  "unassigned cw (AList.update var val a) = unassigned cw a - {var}"
  by (auto simp: unassigned_def keys_update)

termination backtrack
proof (relation "measures
    [\<lambda>p. case p of
            Inl (cw, doms, a) \<Rightarrow> 2 * card (unassigned cw a)
          | Inr (cw, doms, var, vals, a) \<Rightarrow> 2 * card (unassigned cw a - {var}) + 1,
     \<lambda>p. case p of
            Inl (cw, doms, a) \<Rightarrow> 0
          | Inr (cw, doms, var, vals, a) \<Rightarrow> length vals]", goal_cases)
  case 1
  show ?case by simp
next
  case (2 cw doms a var vals)
  from select_unassigned_variable_sound[OF 2(2)]
  have "var \<in> unassigned cw a" by (simp add: unassigned_def)
  then have "card (unassigned cw a - {var}) < card (unassigned cw a)"
    by (intro card_Diff1_less) simp_all
  then show ?case by simp
next
  case (3 cw doms var val rest a ok)
  show ?case by (simp add: unassigned_update)
next
  case (4 cw doms var val rest a ok p a' found)
  from 4(3,4) have "backtrack cw doms (AList.update var val a) = Inr (a', found)" by simp
  from backtrack_keys_dom(1)[OF 4(7) this]
  have "keys (AList.update var val a) \<subseteq> keys a'" .
  then have "unassigned cw (AList.delete var a') - {var} \<subseteq> unassigned cw a - {var}"
    by (auto simp: unassigned_def keys_update keys_delete)
  then have "card (unassigned cw (AList.delete var a') - {var}) \<le> card (unassigned cw a - {var})"
    by (simp add: card_mono)
  then show ?case by (simp add: le_less)
next
  case (5 cw doms var val rest a ok)
  show ?case by (simp add: unassigned_update)
qed

declare backtrack.simps [simp del]

section \<open>Revision of one arc\<close>

lemma dom_of_Some: "map_of doms x = Some d \<Longrightarrow> dom_of doms x = set d"
  by (simp add: dom_of_def)



lemma map_fst_update_present:
  "map_of doms x = Some d \<Longrightarrow> map fst (AList.update x d' doms) = map fst doms"
  by (auto simp: AList.update_keys dest: map_of_SomeD intro: rev_image_eqI)

lemma revise_None: "overlaps cw x y = None \<Longrightarrow> revise cw doms x y = Inr (doms, False)"
  by (simp add: revise_def)

lemma dom_of_words_of: "dom_of doms x = set (words_of doms x)"
  by (simp add: dom_of_def words_of_def split: option.splits)

lemma revise_Some:
  assumes "revise cw doms x y = Inr (doms', revised)" and "overlaps cw x y = Some (ix, iy)"
  obtains dx dy where "map_of doms x = Some dx" "dy = words_of doms y"
    "doms' = AList.update x (filter (supported ix iy dy) dx) doms"
    "revised = (\<exists>w \<in> set dx. \<not> supported ix iy dy w)"
    "\<forall>w \<in> set dx. ix < length w"
proof -
  let ?dy = "words_of doms y"
  from assms obtain dx rs where
    dx: "map_of doms x = Some dx" and
    rs: "revise_toRemove ix iy dx (map_of doms y) = Inr rs" and
    d': "doms' = AList.update x (remove_values rs dx) doms" and r: "revised = (rs \<noteq> [])"
    by (auto simp: revise_def split: option.splits sum.splits)
  from revise_toRemove_Inr[OF rs]
  have rs_eq: "rs = filter (\<lambda>w. \<not> supported ix iy ?dy w) dx"
    and len: "\<forall>w \<in> set dx. ix < length w"
    by simp_all
  have "remove_values rs dx = filter (supported ix iy ?dy) dx"
    unfolding remove_values_filter rs_eq by (rule filter_cong) auto
  moreover have "(rs \<noteq> []) = (\<exists>w \<in> set dx. \<not> supported ix iy ?dy w)"
    unfolding rs_eq by (simp add: filter_empty_conv)
  ultimately have e1: "doms' = AList.update x (filter (supported ix iy ?dy) dx) doms"
    and e2: "revised = (\<exists>w \<in> set dx. \<not> supported ix iy ?dy w)"
    using d' r by simp_all
  from that[OF dx refl e1 e2 len] show thesis .
qed



section \<open>Runs of the propagation loop\<close>

lemma ac3_loop_run_induct [consumes 1, case_names empty same wipe shrink]:
  assumes run: "ac3_loop cw doms q c = Inr (doms', r)"
    and empty: "\<And>cw doms c. P cw doms [] c doms (c \<noteq> 0)"
    and same: "\<And>cw doms q c doms' r. q \<noteq> [] \<Longrightarrow>
        revise cw doms (fst (last q)) (snd (last q)) = Inr (doms, False) \<Longrightarrow>
        ac3_loop cw doms (butlast q) c = Inr (doms', r) \<Longrightarrow>
        P cw doms (butlast q) c doms' r \<Longrightarrow> P cw doms q c doms' r"
    and wipe: "\<And>cw doms q c d1. q \<noteq> [] \<Longrightarrow>
        revise cw doms (fst (last q)) (snd (last q)) = Inr (d1, True) \<Longrightarrow>
        map_of d1 (fst (last q)) = Some [] \<Longrightarrow> P cw doms q c d1 False"
    and shrink: "\<And>cw doms q c d1 d doms' r. q \<noteq> [] \<Longrightarrow>
        revise cw doms (fst (last q)) (snd (last q)) = Inr (d1, True) \<Longrightarrow>
        map_of d1 (fst (last q)) = Some d \<Longrightarrow> d \<noteq> [] \<Longrightarrow>
        ac3_loop cw d1 (butlast q @ requeue cw (fst (last q))) (c + 1) = Inr (doms', r) \<Longrightarrow>
        P cw d1 (butlast q @ requeue cw (fst (last q))) (c + 1) doms' r \<Longrightarrow>
        P cw doms q c doms' r"
  shows "P cw doms q c doms' r"
  using run
proof (induction cw doms q c rule: ac3_loop.induct)
  case (1 cw doms queue changes)
  note run = "1.prems"
  show ?case
  proof (cases "queue = []")
    case True
    with run have "doms' = doms" "r = (changes \<noteq> 0)"
      by (simp_all add: ac3_loop.simps)
    with True empty show ?thesis by simp
  next
    case ne: False
    let ?x = "fst (last queue)" and ?y = "snd (last queue)"
    from run ne obtain d1 revised where rev: "revise cw doms ?x ?y = Inr (d1, revised)"
      by (auto simp: ac3_loop.simps[of cw doms queue] Let_def split: sum.splits)
    show ?thesis
    proof (cases revised)
      case False
      with rev have d1: "d1 = doms" by (simp add: revise_False_same)
      from run ne rev False d1 have rec: "ac3_loop cw doms (butlast queue) changes = Inr (doms', r)"
        by (simp add: ac3_loop.simps[of cw doms queue] Let_def)
      from "1.IH"(2)[OF ne refl refl rev[unfolded d1] refl _ rec] False
      have "P cw doms (butlast queue) changes doms' r" by simp
      from same[OF ne _ rec this] rev False d1 show ?thesis by simp
    next
      case True
      from run ne rev True obtain d where d: "map_of d1 ?x = Some d"
        by (auto simp: ac3_loop.simps[of cw doms queue] Let_def split: option.splits)
      show ?thesis
      proof (cases "d = []")
        case True
        with run ne rev \<open>revised\<close> d have "doms' = d1" "r = False"
          by (simp_all add: ac3_loop.simps[of cw doms queue] Let_def)
        with wipe[OF ne _ d[unfolded True]] rev \<open>revised\<close> show ?thesis by simp
      next
        case False
        with run ne rev \<open>revised\<close> d have
          rec: "ac3_loop cw d1 (butlast queue @ requeue cw ?x) (changes + 1) = Inr (doms', r)"
          by (simp add: ac3_loop.simps[of cw doms queue] Let_def)
        from False have "\<not> length d = 0" by simp
        from "1.IH"(1)[OF ne refl refl rev refl \<open>revised\<close> d this rec]
        have "P cw d1 (butlast queue @ requeue cw ?x) (changes + 1) doms' r" .
        from shrink[OF ne _ d False rec this] rev \<open>revised\<close> show ?thesis by simp
      qed
    qed
  qed
qed


lemma dom_of_update:
  "dom_of (AList.update x d doms) z = (if z = x then set d else dom_of doms z)"
  by (simp add: dom_of_def AList.update_conv')

lemma revise_dom_of:
  assumes "revise cw d x y = Inr (d', r)"
  shows "dom_of d' z \<subseteq> dom_of d z" and "z \<noteq> x \<Longrightarrow> dom_of d' z = dom_of d z"
    and "map fst d' = map fst d"
proof -
  have "dom_of d' z \<subseteq> dom_of d z \<and> (z \<noteq> x \<longrightarrow> dom_of d' z = dom_of d z) \<and>
        map fst d' = map fst d"
  proof (cases "overlaps cw x y")
    case None
    with assms show ?thesis by (simp add: revise_None)
  next
    case (Some p)
    obtain ix iy where "p = (ix, iy)" by (cases p)
    with Some have ov: "overlaps cw x y = Some (ix, iy)" by simp
    from assms ov obtain dx dy where dx: "map_of d x = Some dx"
      and d': "d' = AList.update x (filter (supported ix iy dy) dx) d"
      by (rule revise_Some)
    show ?thesis unfolding d' using dx
      by (auto simp: dom_of_update dom_of_Some map_fst_update_present)
  qed
  then show "dom_of d' z \<subseteq> dom_of d z" and "z \<noteq> x \<Longrightarrow> dom_of d' z = dom_of d z"
    and "map fst d' = map fst d" by simp_all
qed

lemma revise_True_dom:
  assumes "revise cw d x y = Inr (d', True)"
  shows "dom_of d' x \<subset> dom_of d x"
proof -
  have "overlaps cw x y \<noteq> None"
  proof
    assume "overlaps cw x y = None"
    from revise_None[OF this, of doms] assms show False
      by (simp add: revise_None[OF \<open>overlaps cw x y = None\<close>])
  qed
  then obtain ix iy where ov: "overlaps cw x y = Some (ix, iy)" by auto
  from assms ov obtain dx dy where dx: "map_of d x = Some dx"
    and d': "d' = AList.update x (filter (supported ix iy dy) dx) d"
    and r: "True = (\<exists>w \<in> set dx. \<not> supported ix iy dy w)"
    by (rule revise_Some)
  from r obtain w where "w \<in> set dx" "\<not> supported ix iy dy w" by auto
  then show ?thesis unfolding d' using dx
    by (auto simp: dom_of_update dom_of_Some)
qed

lemma ac3_loop_subset:
  assumes "ac3_loop cw doms q c = Inr (doms', r)"
  shows "(\<forall>z. dom_of doms' z \<subseteq> dom_of doms z) \<and> map fst doms' = map fst doms"
  using assms
proof (induction rule: ac3_loop_run_induct)
  case (shrink cw doms q c d1 d doms' r)
  from revise_dom_of(1,3)[OF shrink(2)] shrink(6) show ?case by (metis subset_trans)
next
  case (wipe cw doms q c d1)
  from revise_dom_of(1,3)[OF wipe(2)] show ?case by simp
qed simp_all

section \<open>Node consistency\<close>

lemma remove_node_toRemove:
  "remove_values (node_toRemove key d) d = filter (\<lambda>w. length w = var_length key) d"
  unfolding remove_values_filter node_toRemove_def by (rule filter_cong) auto

lemma enforce_node_consistent: "node_consistent (enforce_node_consistency doms)"
  by (auto simp: node_consistent_def enforce_node_consistency_def remove_node_toRemove
      list_all_iff)

lemma map_of_enforce:
  "map_of (enforce_node_consistency doms) k =
     map_option (filter (\<lambda>w. length w = var_length k)) (map_of doms k)"
  by (induction doms) (auto simp: enforce_node_consistency_def remove_node_toRemove)

lemma dom_of_enforce:
  "dom_of (enforce_node_consistency doms) k = {w \<in> dom_of doms k. length w = var_length k}"
  by (cases "map_of doms k") (auto simp: dom_of_def map_of_enforce)

lemma map_fst_enforce: "map fst (enforce_node_consistency doms) = map fst doms"
  by (induction doms) (auto simp: enforce_node_consistency_def)

lemma node_consistent_map_of:
  "node_consistent doms \<Longrightarrow> map_of doms x = Some d \<Longrightarrow> w \<in> set d \<Longrightarrow> length w = var_length x"
  by (auto simp: node_consistent_def list_all_iff dest!: map_of_SomeD)

lemma node_consistent_update:
  "node_consistent doms \<Longrightarrow> \<forall>w \<in> set d. length w = var_length x \<Longrightarrow>
     node_consistent (AList.update x d doms)"
  by (induction doms) (auto simp: node_consistent_def list_all_iff)

lemma revise_node_consistent:
  assumes "node_consistent d" and "revise cw d x y = Inr (d', r)"
  shows "node_consistent d'"
proof (cases "overlaps cw x y")
  case None
  with assms show ?thesis by (simp add: revise_None)
next
  case (Some p)
  obtain ix iy where "p = (ix, iy)" by (cases p)
  with Some have ov: "overlaps cw x y = Some (ix, iy)" by simp
  from assms(2) ov obtain dx dy where dx: "map_of d x = Some dx"
    and d': "d' = AList.update x (filter (supported ix iy dy) dx) d"
    by (rule revise_Some)
  show ?thesis unfolding d'
    using node_consistent_map_of[OF assms(1) dx]
    by (intro node_consistent_update[OF assms(1)]) auto
qed

lemma ac3_loop_node_consistent:
  assumes "ac3_loop cw doms q c = Inr (doms', r)"
  shows "node_consistent doms \<longrightarrow> node_consistent doms'"
  using assms
  by (induction rule: ac3_loop_run_induct) (auto dest: revise_node_consistent)

text \<open>
  C9: after \<open>enforce_node_consistency\<close> every word of every domain has the length of its
  variable. A call of \<open>revise\<close> or \<open>ac3\<close> that returns only removes words: every domain
  afterwards is a subset of the domain before, no key is added or dropped, and domains whose
  words all had the right length still have that property. The search does not write to the
  domains at all: \<open>backtrack\<close> only reads them.
\<close>

theorem node_consistency_invariant:
  "node_consistent (enforce_node_consistency doms) \<and>
   (\<forall>x y doms' r. revise cw doms x y = Inr (doms', r) \<longrightarrow>
      (\<forall>z. dom_of doms' z \<subseteq> dom_of doms z) \<and> map fst doms' = map fst doms \<and>
      (node_consistent doms \<longrightarrow> node_consistent doms')) \<and>
   (\<forall>arcs doms' r. ac3 cw doms arcs = Inr (doms', r) \<longrightarrow>
      (\<forall>z. dom_of doms' z \<subseteq> dom_of doms z) \<and> map fst doms' = map fst doms \<and>
      (node_consistent doms \<longrightarrow> node_consistent doms'))"
proof (intro conjI allI impI)
  show "node_consistent (enforce_node_consistency doms)"
    by (rule enforce_node_consistent)
next
  fix x y doms' r z
  assume "revise cw doms x y = Inr (doms', r)"
  then show "dom_of doms' z \<subseteq> dom_of doms z" by (rule revise_dom_of(1))
next
  fix x y doms' r
  assume "revise cw doms x y = Inr (doms', r)"
  then show "map fst doms' = map fst doms" by (rule revise_dom_of(3))
next
  fix x y doms' r
  assume "revise cw doms x y = Inr (doms', r)" "node_consistent doms"
  then show "node_consistent doms'" by (auto dest: revise_node_consistent)
next
  fix arcs doms' r z
  assume "ac3 cw doms arcs = Inr (doms', r)"
  then show "dom_of doms' z \<subseteq> dom_of doms z"
    unfolding ac3_def by (auto dest: ac3_loop_subset)
next
  fix arcs doms' r
  assume "ac3 cw doms arcs = Inr (doms', r)"
  then show "map fst doms' = map fst doms"
    unfolding ac3_def by (auto dest: ac3_loop_subset)
next
  fix arcs doms' r
  assume "ac3 cw doms arcs = Inr (doms', r)" "node_consistent doms"
  then show "node_consistent doms'"
    unfolding ac3_def using ac3_loop_node_consistent by blast
qed

theorem node_consistency_invariant_witness:
  "enforce_node_consistency (init_domains (corner 4 [''CAT'', ''DOG'', ''COWS'']))
     = [(across3, [''CAT'', ''DOG'']), (down 4, [''COWS''])] \<and>
   node_consistent [(across3, [''CAT'', ''DOG'']), (down 4, [''COWS''])] \<and>
   revise (corner 4 [''CAT'', ''DOG'', ''COWS''])
      [(across3, [''CAT'', ''DOG'']), (down 4, [''COWS''])] across3 (down 4)
     = Inr ([(across3, [''CAT'']), (down 4, [''COWS''])], True) \<and>
   ac3 (corner 4 [''CAT'', ''DOG'', ''COWS''])
      [(across3, [''CAT'', ''DOG'']), (down 4, [''COWS''])] None
     = Inr ([(across3, [''CAT'']), (down 4, [''COWS''])], True) \<and>
   node_consistent [(across3, [''CAT'']), (down 4, [''COWS''])] \<and>
   dom_of [(across3, [''CAT'']), (down 4, [''COWS''])] across3
     \<subseteq> dom_of [(across3, [''CAT'', ''DOG'']), (down 4, [''COWS''])] across3"
proof -
  let ?cw = "corner 4 [''CAT'', ''DOG'', ''COWS'']"
  let ?D = "[(across3, [''CAT'', ''DOG'']), (down 4, [''COWS''])]"
  let ?D' = "[(across3, [''CAT'']), (down 4, [''COWS''])]"
  have D: "enforce_node_consistency (init_domains ?cw) = ?D"
    by code_simp
  have run: "revise ?cw ?D across3 (down 4) = Inr (?D', True)"
    by code_simp
  have run2: "ac3 ?cw ?D None = Inr (?D', True)"
    by code_simp
  from node_consistency_invariant[of "init_domains ?cw" ?cw] D
  have nc: "node_consistent ?D"
    by simp
  from node_consistency_invariant[of ?D ?cw] run2 nc
  have "node_consistent ?D'" and "dom_of ?D' across3 \<subseteq> dom_of ?D across3"
    by blast+
  with D nc run run2 show ?thesis
    by blast
qed

section \<open>Index safety of revise\<close>

lemma find_support_Inl: "find_support iy letter dy = Inl e \<Longrightarrow> e = IndexError"
  by (induction dy) (auto split: if_splits)

lemma find_support_total:
  "\<forall>v \<in> set dy. iy < length v \<Longrightarrow> \<exists>b. find_support iy letter dy = Inr b"
  by (induction dy) auto

lemma revise_toRemove_total:
  "\<forall>w \<in> set dx. ix < length w \<Longrightarrow> \<forall>v \<in> set dy. iy < length v \<Longrightarrow>
     \<exists>rs. revise_toRemove ix iy dx (Some dy) = Inr rs"
proof (induction dx)
  case Nil
  show ?case by simp
next
  case (Cons w dx)
  from Cons.prems(2) obtain b where "find_support iy (w ! ix) dy = Inr b"
    using find_support_total by blast
  moreover from Cons obtain rs where "revise_toRemove ix iy dx (Some dy) = Inr rs"
    by auto
  ultimately show ?case using Cons.prems(1) by simp
qed

lemma revise_toRemove_crash:
  "\<exists>w \<in> set dx. length w \<le> ix \<Longrightarrow> revise_toRemove ix iy dx (Some dy) = Inl IndexError"
proof (induction dx)
  case Nil
  then show ?case by simp
next
  case (Cons w dx)
  show ?case
  proof (cases "ix < length w")
    case False
    then show ?thesis by simp
  next
    case True
    with Cons.prems have "\<exists>w \<in> set dx. length w \<le> ix" by auto
    from Cons.IH[OF this] True show ?thesis
      by (auto split: sum.splits dest: find_support_Inl)
  qed
qed

lemma revise_total:
  assumes "overlaps cw x y = Some (ix, iy)"
    and "map_of doms x = Some dx" and "map_of doms y = Some dy"
    and "\<forall>w \<in> set dx. ix < length w" and "\<forall>v \<in> set dy. iy < length v"
  shows "\<exists>doms' r. revise cw doms x y = Inr (doms', r)"
  using assms revise_toRemove_total[OF assms(4,5)] by (auto simp: revise_def)

lemma revise_crash:
  assumes "overlaps cw x y = Some (ix, iy)"
    and "map_of doms x = Some dx" and "map_of doms y = Some dy"
    and "\<exists>w \<in> set dx. length w \<le> ix"
  shows "revise cw doms x y = Inl IndexError"
  using assms revise_toRemove_crash[OF assms(4)] by (simp add: revise_def)

lemma revise_after_node_consistency:
  assumes wf: "wf_crossword cw" and ov: "overlaps cw x y = Some (ix, iy)"
    and nc: "node_consistent doms" and x: "map_of doms x = Some dx" and y: "map_of doms y = Some dy"
  shows "\<exists>doms' r. revise cw doms x y = Inr (doms', r)"
proof -
  from wf ov have "ix < var_length x" "iy < var_length y"
    unfolding wf_crossword_def by blast+
  with node_consistent_map_of[OF nc x] node_consistent_map_of[OF nc y]
  have "\<forall>w \<in> set dx. ix < length w" "\<forall>v \<in> set dy. iy < length v" by auto
  with ov x y show ?thesis by (rule revise_total)
qed

lemma short_word_reached_Nil: "\<not> short_word_reached iy letter []"
  by (simp add: short_word_reached_def)

lemma short_word_reached_Cons:
  "short_word_reached iy letter (v # rest) \<longleftrightarrow>
     length v \<le> iy \<or> (v ! iy \<noteq> letter \<and> short_word_reached iy letter rest)"
proof
  assume "short_word_reached iy letter (v # rest)"
  then obtain pre s post where eq: "v # rest = pre @ s # post" and short: "length s \<le> iy"
    and pre: "\<forall>u \<in> set pre. iy < length u \<and> u ! iy \<noteq> letter"
    unfolding short_word_reached_def by blast
  show "length v \<le> iy \<or> (v ! iy \<noteq> letter \<and> short_word_reached iy letter rest)"
  proof (cases pre)
    case Nil
    with eq short show ?thesis by simp
  next
    case (Cons u pre')
    with eq have "u = v" "rest = pre' @ s # post" by simp_all
    with pre Cons short show ?thesis unfolding short_word_reached_def by auto
  qed
next
  assume a: "length v \<le> iy \<or> (v ! iy \<noteq> letter \<and> short_word_reached iy letter rest)"
  show "short_word_reached iy letter (v # rest)"
  proof (cases "length v \<le> iy")
    case True
    then have "v # rest = [] @ v # rest \<and> length v \<le> iy \<and>
        (\<forall>u \<in> set []. iy < length u \<and> u ! iy \<noteq> letter)" by simp
    then show ?thesis unfolding short_word_reached_def by blast
  next
    case False
    with a obtain pre s post where ne: "v ! iy \<noteq> letter" and eq: "rest = pre @ s # post"
      and short: "length s \<le> iy" and pre: "\<forall>u \<in> set pre. iy < length u \<and> u ! iy \<noteq> letter"
      unfolding short_word_reached_def by blast
    from False ne eq pre have "v # rest = (v # pre) @ s # post \<and>
        (\<forall>u \<in> set (v # pre). iy < length u \<and> u ! iy \<noteq> letter)" by simp
    with short show ?thesis unfolding short_word_reached_def by blast
  qed
qed

lemma find_support_crash_iff:
  "find_support iy letter dy = Inl IndexError \<longleftrightarrow> short_word_reached iy letter dy"
proof (induction dy)
  case Nil
  show ?case by (simp add: short_word_reached_Nil)
next
  case (Cons v dy)
  show ?case unfolding short_word_reached_Cons using Cons.IH by auto
qed

lemma revise_toRemove_crash_iff:
  "\<forall>w \<in> set dx. ix < length w \<Longrightarrow>
     revise_toRemove ix iy dx (Some dy) = Inl IndexError \<longleftrightarrow>
       (\<exists>w \<in> set dx. short_word_reached iy (w ! ix) dy)"
proof (induction dx)
  case Nil
  show ?case by simp
next
  case (Cons w dx)
  from Cons.prems have lw: "ix < length w" and rest: "\<forall>w \<in> set dx. ix < length w" by simp_all
  note ih = Cons.IH[OF rest]
  show ?case
  proof (cases "find_support iy (w ! ix) dy")
    case (Inl e)
    with find_support_Inl have e: "e = IndexError" by blast
    with Inl find_support_crash_iff have "short_word_reached iy (w ! ix) dy" by blast
    with Inl e lw show ?thesis by simp
  next
    case (Inr c)
    with find_support_crash_iff have no: "\<not> short_word_reached iy (w ! ix) dy"
      by (metis sum.distinct(1))
    have "revise_toRemove ix iy (w # dx) (Some dy) = Inl IndexError \<longleftrightarrow>
          revise_toRemove ix iy dx (Some dy) = Inl IndexError"
      using lw Inr by (cases "revise_toRemove ix iy dx (Some dy)") simp_all
    with ih no show ?thesis by simp
  qed
qed

lemma revise_crash_iff:
  assumes "overlaps cw x y = Some (ix, iy)"
    and "map_of doms x = Some dx" and "map_of doms y = Some dy"
    and "\<forall>w \<in> set dx. ix < length w"
  shows "revise cw doms x y = Inl IndexError \<longleftrightarrow>
           (\<exists>w \<in> set dx. short_word_reached iy (w ! ix) dy)"
proof -
  have "revise cw doms x y = Inl IndexError \<longleftrightarrow>
        revise_toRemove ix iy dx (Some dy) = Inl IndexError"
    using assms(1-3)
    by (cases "revise_toRemove ix iy dx (Some dy)") (simp_all add: revise_def)
  with revise_toRemove_crash_iff[OF assms(4)] show ?thesis by simp
qed

text \<open>
  C10, as amended: \<open>revise\<close> indexes the words of \<open>x\<close> at \<open>ix\<close> and the words of \<open>y\<close> at
  \<open>iy\<close> without a bounds check. If every word of \<open>x\<close> is longer than \<open>ix\<close> and every word of
  \<open>y\<close> is longer than \<open>iy\<close>, the call returns. The half about \<open>x\<close> is also necessary: if some
  word of \<open>x\<close> is not longer than \<open>ix\<close>, the call raises \<open>IndexError\<close>. The half about \<open>y\<close> is
  not: when the words of \<open>x\<close> are long enough, the call raises \<open>IndexError\<close> exactly when, for
  some word of \<open>x\<close>, the scan of the words of \<open>y\<close> comes to a word not longer than \<open>iy\<close>
  before it finds a match. On a well-formed puzzle node consistency establishes the
  precondition, so \<open>revise\<close> returns on the filtered domains; on the raw domains of the puzzle
  \<open>tee\<close> with the words AB and ABCD it raises.
\<close>

theorem revise_crash_free:
  "(overlaps cw x y = Some (ix, iy) \<and> map_of doms x = Some dx \<and> map_of doms y = Some dy \<longrightarrow>
      ((\<forall>w \<in> set dx. ix < length w) \<and> (\<forall>v \<in> set dy. iy < length v) \<longrightarrow>
         (\<exists>doms' r. revise cw doms x y = Inr (doms', r))) \<and>
      ((\<exists>w \<in> set dx. length w \<le> ix) \<longrightarrow> revise cw doms x y = Inl IndexError) \<and>
      ((\<forall>w \<in> set dx. ix < length w) \<longrightarrow>
         (revise cw doms x y = Inl IndexError) =
           (\<exists>w \<in> set dx. short_word_reached iy (w ! ix) dy))) \<and>
   (wf_crossword cw \<and> overlaps cw x y = Some (ix, iy) \<and>
    map_of doms x \<noteq> None \<and> map_of doms y \<noteq> None \<longrightarrow>
      (\<exists>doms' r. revise cw (enforce_node_consistency doms) x y = Inr (doms', r))) \<and>
   revise (tee [''AB'', ''ABCD'']) (init_domains (tee [''AB'', ''ABCD''])) across4 down2
     = Inl IndexError"
proof (intro conjI impI)
  assume "overlaps cw x y = Some (ix, iy) \<and> map_of doms x = Some dx \<and> map_of doms y = Some dy"
    and "(\<forall>w \<in> set dx. ix < length w) \<and> (\<forall>v \<in> set dy. iy < length v)"
  then show "\<exists>doms' r. revise cw doms x y = Inr (doms', r)"
    using revise_total by blast
next
  assume "overlaps cw x y = Some (ix, iy) \<and> map_of doms x = Some dx \<and> map_of doms y = Some dy"
    and "\<exists>w \<in> set dx. length w \<le> ix"
  then show "revise cw doms x y = Inl IndexError"
    using revise_crash by blast
next
  assume "overlaps cw x y = Some (ix, iy) \<and> map_of doms x = Some dx \<and> map_of doms y = Some dy"
    and "\<forall>w \<in> set dx. ix < length w"
  then show "(revise cw doms x y = Inl IndexError) =
           (\<exists>w \<in> set dx. short_word_reached iy (w ! ix) dy)"
    using revise_crash_iff by blast
next
  assume a: "wf_crossword cw \<and> overlaps cw x y = Some (ix, iy) \<and>
    map_of doms x \<noteq> None \<and> map_of doms y \<noteq> None"
  then obtain dx' dy' where
    "map_of (enforce_node_consistency doms) x = Some dx'"
    "map_of (enforce_node_consistency doms) y = Some dy'"
    by (auto simp: map_of_enforce)
  with a show "\<exists>doms' r. revise cw (enforce_node_consistency doms) x y = Inr (doms', r)"
    using revise_after_node_consistency[OF _ _ enforce_node_consistent] by blast
next
  show "revise (tee [''AB'', ''ABCD'']) (init_domains (tee [''AB'', ''ABCD''])) across4 down2
     = Inl IndexError"
    by code_simp
qed

lemma wf_tee: "wf_crossword (tee ws)"
  by (auto simp: wf_crossword_def tee_def across4_def down2_def split: if_splits)

lemma wf_corner: "n \<noteq> 0 \<Longrightarrow> wf_crossword (corner n ws)"
  by (auto simp: wf_crossword_def corner_def across3_def down_def split: if_splits)

lemma wf_two_rows: "wf_crossword (two_rows ws)"
  by (auto simp: wf_crossword_def two_rows_def across3_def across3'_def)

lemma wf_three_slots: "wf_crossword (three_slots ws)"
  by (auto simp: wf_crossword_def three_slots_def lone2_def row3_def col2_def split: if_splits)


theorem revise_crash_free_witness:
  "(\<exists>doms' r. revise (tee [''AB'', ''ABCD''])
       (enforce_node_consistency (init_domains (tee [''AB'', ''ABCD'']))) across4 down2
       = Inr (doms', r)) \<and>
   revise (tee [''AB'', ''ABCD'']) (init_domains (tee [''AB'', ''ABCD''])) across4 down2
     = Inl IndexError \<and>
   revise (tee []) [(across4, [''ABCD'']), (down2, [''A'', ''XD''])] across4 down2
     = Inl IndexError"
proof -
  let ?cw = "tee [''AB'', ''ABCD'']"
  let ?D = "[(across4, [''ABCD'']), (down2, [''A'', ''XD''])]"
  have ov: "overlaps ?cw across4 down2 = Some (3, 1)"
    by code_simp
  have x: "map_of (init_domains ?cw) across4 = Some [''AB'', ''ABCD'']"
    by code_simp
  have y: "map_of (init_domains ?cw) down2 = Some [''AB'', ''ABCD'']"
    by code_simp
  have short: "\<exists>w \<in> set [''AB'', ''ABCD'']. length w \<le> (3::nat)"
    by simp
  from revise_crash_free[of ?cw across4 down2 3 1 "init_domains ?cw"
      "[''AB'', ''ABCD'']" "[''AB'', ''ABCD'']"] wf_tee ov x y short
  have first: "(\<exists>doms' r. revise ?cw (enforce_node_consistency (init_domains ?cw))
        across4 down2 = Inr (doms', r)) \<and>
      revise ?cw (init_domains ?cw) across4 down2 = Inl IndexError"
    by simp
  have ov': "overlaps (tee []) across4 down2 = Some (3, 1)"
    by code_simp
  have x': "map_of ?D across4 = Some [''ABCD'']"
    by simp
  have y': "map_of ?D down2 = Some [''A'', ''XD'']"
    by code_simp
  have long: "\<forall>w \<in> set [''ABCD'']. (3::nat) < length w"
    by simp
  have "[''A'', ''XD''] = [] @ ''A'' # [''XD''] \<and> length ''A'' \<le> (1::nat) \<and>
        (\<forall>u \<in> set ([] :: string list). 1 < length u \<and> u ! 1 \<noteq> ''ABCD'' ! 3)"
    by simp
  then have "short_word_reached 1 (''ABCD'' ! 3) [''A'', ''XD'']"
    unfolding short_word_reached_def by blast
  then have reach: "\<exists>w \<in> set [''ABCD'']. short_word_reached 1 (w ! 3) [''A'', ''XD'']"
    by simp
  from revise_crash_free[of "tee []" across4 down2 3 1 ?D "[''ABCD'']" "[''A'', ''XD'']"]
    ov' x' y' long reach
  have "revise (tee []) ?D across4 down2 = Inl IndexError"
    by blast
  with first show ?thesis
    by blast
qed

theorem revise_short_word_not_reached:
  "revise (tee []) [(across4, [''ABCD'']), (down2, [''XD'', ''A''])] across4 down2
     = Inr ([(across4, [''ABCD'']), (down2, [''XD'', ''A''])], False) \<and>
   overlaps (tee []) across4 down2 = Some (3, 1) \<and>
   map_of [(across4, [''ABCD'']), (down2, [''XD'', ''A''])] down2 = Some [''XD'', ''A''] \<and>
   length ''A'' \<le> (1::nat)"
  by code_simp

section \<open>The value ac3 returns\<close>

lemma ac3_loop_return:
  assumes "ac3_loop cw doms q c = Inr (doms', r)"
  shows "r = ((c \<noteq> 0 \<or> changed doms doms') \<and> \<not> emptied doms doms')"
  using assms
proof (induction rule: ac3_loop_run_induct)
  case (empty cw doms c)
  show ?case by (simp add: changed_def emptied_def)
next
  case (same cw doms q c doms' r)
  then show ?case by simp
next
  case (wipe cw doms q c d1)
  from revise_True_dom[OF wipe(2)] wipe(3)
  have "dom_of doms (fst (last q)) \<noteq> {}" "dom_of d1 (fst (last q)) = {}"
    by (auto simp: dom_of_Some)
  then have "emptied doms d1" unfolding emptied_def by blast
  then show ?case by simp
next
  case (shrink cw doms q c d1 d doms' r)
  let ?x = "fst (last q)"
  note sub = revise_True_dom[OF shrink(2)]
  note other = revise_dom_of(2)[OF shrink(2)]
  from ac3_loop_subset[OF shrink(5)] have sub': "dom_of doms' z \<subseteq> dom_of d1 z" for z
    by simp
  from sub sub'[of ?x] have "dom_of doms' ?x \<noteq> dom_of doms ?x" by blast
  then have ch: "changed doms doms'" unfolding changed_def by blast
  from shrink(3,4) have ne1: "dom_of d1 ?x \<noteq> {}" by (simp add: dom_of_Some)
  with sub have ne: "dom_of doms ?x \<noteq> {}" by blast
  have "(dom_of doms z \<noteq> {}) = (dom_of d1 z \<noteq> {})" for z
    using other[of z] ne ne1 by (cases "z = ?x") simp_all
  then have "emptied doms doms' = emptied d1 doms'" unfolding emptied_def by simp
  with shrink(6) ch show ?case by simp
qed

text \<open>
  C7, as amended: a call of \<open>ac3\<close> that returns gives true exactly when some domain changed
  and no domain that was non-empty before the call is empty after it. A run that empties a
  domain returns false although that domain changed.
\<close>

theorem ac3_return_value:
  assumes "ac3 cw doms arcs = Inr (doms', r)"
  shows "r = (changed doms doms' \<and> \<not> emptied doms doms')"
  using ac3_loop_return[OF assms[unfolded ac3_def]] by simp



theorem ac3_return_value_witness:
  "ac3 (corner 4 [''CAT'', ''DOG'', ''COWS''])
      [(across3, [''CAT'', ''DOG'']), (down 4, [''COWS''])] None
     = Inr ([(across3, [''CAT'']), (down 4, [''COWS''])], True) \<and>
   changed [(across3, [''CAT'', ''DOG'']), (down 4, [''COWS''])]
           [(across3, [''CAT'']), (down 4, [''COWS''])] \<and>
   \<not> emptied [(across3, [''CAT'', ''DOG'']), (down 4, [''COWS''])]
             [(across3, [''CAT'']), (down 4, [''COWS''])]"
proof -
  have run: "ac3 (corner 4 [''CAT'', ''DOG'', ''COWS''])
      [(across3, [''CAT'', ''DOG'']), (down 4, [''COWS''])] None
     = Inr ([(across3, [''CAT'']), (down 4, [''COWS''])], True)"
    by code_simp
  from ac3_return_value[OF run] run show ?thesis
    by simp
qed

theorem ac3_return_counterexample:
  "ac3 (corner 4 [''CAT'', ''DOGS''])
      (enforce_node_consistency (init_domains (corner 4 [''CAT'', ''DOGS'']))) None
     = Inr ([(across3, []), (down 4, [''DOGS''])], False) \<and>
   dom_of [(across3, []), (down 4, [''DOGS''])] across3
     \<noteq> dom_of (enforce_node_consistency (init_domains (corner 4 [''CAT'', ''DOGS''])))
          across3"
proof -
  have "enforce_node_consistency (init_domains (corner 4 [''CAT'', ''DOGS'']))
          = [(across3, [''CAT'']), (down 4, [''DOGS''])]"
    by code_simp
  moreover have "ac3 (corner 4 [''CAT'', ''DOGS''])
      [(across3, [''CAT'']), (down 4, [''DOGS''])] None
     = Inr ([(across3, []), (down 4, [''DOGS''])], False)"
    by code_simp
  ultimately show ?thesis
    by (simp add: dom_of_def)
qed

section \<open>Propagation keeps solutions\<close>

lemma keys_dom_of: "x \<notin> keys doms \<Longrightarrow> dom_of doms x = {}"
  by (simp add: dom_of_def map_of_None_keys[symmetric])

lemma keys_map_of: "x \<in> keys doms \<Longrightarrow> \<exists>d. map_of doms x = Some d"
  using map_of_None_keys[of doms x] by auto

lemma keys_map_fst: "map fst d' = map fst d \<Longrightarrow> keys d' = keys d"
  unfolding keys_def by (metis set_map)

lemma valid_solution_map_of:
  "valid_solution cw a \<Longrightarrow> (x, w) \<in> set a \<Longrightarrow> map_of a x = Some w"
  by (simp add: valid_solution_def)

lemma valid_solution_entry:
  assumes "valid_solution cw a" and "x \<in> set (variables cw)"
  obtains w where "(x, w) \<in> set a" "map_of a x = Some w"
proof -
  from assms have "x \<in> fst ` set a" by (simp add: valid_solution_def keys_def)
  then obtain w where "(x, w) \<in> set a" by auto
  with valid_solution_map_of[OF assms(1)] that show thesis by blast
qed

lemma supportedI: "v \<in> set dy \<Longrightarrow> agrees ix iy w v \<Longrightarrow> supported ix iy dy w"
  by (auto simp: supported_def list_ex_iff)

lemma supportedE: "supported ix iy dy w \<Longrightarrow> \<exists>v \<in> set dy. agrees ix iy w v"
  by (auto simp: supported_def list_ex_iff)

lemma revise_keeps_solution:
  assumes wf: "wf_crossword cw" and sol: "valid_solution cw a" and inside: "within a d"
    and run: "revise cw d x y = Inr (d', r)"
  shows "within a d'"
proof (cases "overlaps cw x y")
  case None
  with run inside show ?thesis by (simp add: revise_None)
next
  case (Some p)
  obtain ix iy where "p = (ix, iy)" by (cases p)
  with Some have ov: "overlaps cw x y = Some (ix, iy)" by simp
  from run ov obtain dx dy where dx: "map_of d x = Some dx" and dy: "dy = words_of d y"
    and d': "d' = AList.update x (filter (supported ix iy dy) dx) d"
    by (rule revise_Some)
  from wf ov have yv: "y \<in> set (variables cw)" unfolding wf_crossword_def by blast
  from sol yv obtain wy where wy: "(y, wy) \<in> set a" "map_of a y = Some wy"
    by (rule valid_solution_entry)
  from inside wy(1) dy have wy_in: "wy \<in> set dy"
    by (auto simp: within_def dom_of_words_of)
  have "w \<in> dom_of d' z" if zw: "(z, w) \<in> set a" for z w
  proof (cases "z = x")
    case False
    with inside zw show ?thesis unfolding d' by (auto simp: within_def dom_of_update)
  next
    case True
    with inside zw dx have "w \<in> set dx" by (auto simp: within_def dom_of_Some)
    moreover from sol ov valid_solution_map_of[OF sol zw] wy(2) True
    have "agrees ix iy w wy" unfolding valid_solution_def by blast
    ultimately show ?thesis unfolding d' using wy_in True
      by (auto simp: dom_of_update intro: supportedI)
  qed
  then show ?thesis unfolding within_def by auto
qed

lemma ac3_loop_keeps_solution:
  assumes "ac3_loop cw doms q c = Inr (doms', r)"
  shows "wf_crossword cw \<longrightarrow> valid_solution cw a \<longrightarrow> within a doms \<longrightarrow> within a doms'"
  using assms
  by (induction rule: ac3_loop_run_induct) (auto dest: revise_keeps_solution)

lemma enforce_keeps_solution:
  assumes "valid_solution cw a" and "within a doms"
  shows "within a (enforce_node_consistency doms)"
  using assms by (auto simp: within_def valid_solution_def dom_of_enforce)


lemma neighbors_variables: "n \<in> set (neighbors cw x) \<Longrightarrow> n \<in> set (variables cw)"
  by (simp add: neighbors_def)

lemma requeue_arcs:
  "(a, b) \<in> set (requeue cw x) \<Longrightarrow>
     (a = x \<and> b \<in> set (neighbors cw x)) \<or> (b = x \<and> a \<in> set (neighbors cw x))"
  by (auto simp: requeue_def)

lemma ac3_loop_total:
  "wf_crossword cw \<Longrightarrow> node_consistent doms \<Longrightarrow> set (variables cw) \<subseteq> keys doms \<Longrightarrow>
   \<forall>(x, y) \<in> set q. x \<in> keys doms \<and> y \<in> keys doms \<Longrightarrow>
   \<exists>doms' r. ac3_loop cw doms q c = Inr (doms', r)"
proof (induction cw doms q c rule: ac3_loop.induct)
  case (1 cw doms queue changes)
  show ?case
  proof (cases "queue = []")
    case True
    then have "ac3_loop cw doms queue changes = Inr (doms, changes \<noteq> 0)"
      by (simp add: ac3_loop.simps)
    then show ?thesis by blast
  next
    case ne: False
    let ?x = "fst (last queue)" and ?y = "snd (last queue)"
    from ne have "last queue \<in> set queue" by simp
    with "1.prems"(4) have xk: "?x \<in> keys doms" and yk: "?y \<in> keys doms"
      by (auto simp: case_prod_beta)
    from keys_map_of[OF xk] keys_map_of[OF yk] obtain dx dy where
      dx: "map_of doms ?x = Some dx" and dy: "map_of doms ?y = Some dy" by auto
    have "\<exists>d1 revised. revise cw doms ?x ?y = Inr (d1, revised)"
    proof (cases "overlaps cw ?x ?y")
      case None
      from revise_None[OF this] show ?thesis by blast
    next
      case (Some p)
      obtain ix iy where "p = (ix, iy)" by (cases p)
      with Some have "overlaps cw ?x ?y = Some (ix, iy)" by simp
      from revise_after_node_consistency[OF "1.prems"(1) this "1.prems"(2) dx dy]
      show ?thesis .
    qed
    then obtain d1 revised where rev: "revise cw doms ?x ?y = Inr (d1, revised)" by auto
    have rest: "\<forall>(x, y) \<in> set (butlast queue). x \<in> keys doms \<and> y \<in> keys doms"
      using "1.prems"(4) by (auto dest: in_set_butlastD)
    show ?thesis
    proof (cases revised)
      case False
      with rev have d1: "d1 = doms" by (simp add: revise_False_same)
      from "1.IH"(2)[OF ne refl refl rev[unfolded d1] refl _ "1.prems"(1,2,3) rest] False
      obtain doms' r where "ac3_loop cw doms (butlast queue) changes = Inr (doms', r)"
        by auto
      with ne rev False d1 have "ac3_loop cw doms queue changes = Inr (doms', r)"
        by (simp add: ac3_loop.simps[of cw doms queue] Let_def)
      then show ?thesis by blast
    next
      case True
      from revise_dom_of(3)[OF rev] have k1: "keys d1 = keys doms" by (rule keys_map_fst)
      with xk keys_map_of[of ?x d1] obtain d where d: "map_of d1 ?x = Some d" by auto
      show ?thesis
      proof (cases "d = []")
        case True
        with ne rev \<open>revised\<close> d have "ac3_loop cw doms queue changes = Inr (d1, False)"
          by (simp add: ac3_loop.simps[of cw doms queue] Let_def)
        then show ?thesis by blast
      next
        case False
        then have len: "\<not> length d = 0" by simp
        have nc1: "node_consistent d1"
          using revise_node_consistent[OF "1.prems"(2) rev] .
        have vars1: "set (variables cw) \<subseteq> keys d1" using "1.prems"(3) k1 by simp
        have arcs1: "\<forall>(a, b) \<in> set (butlast queue @ requeue cw ?x). a \<in> keys d1 \<and> b \<in> keys d1"
          using rest xk vars1 k1
          by (auto dest!: requeue_arcs neighbors_variables)
        from "1.IH"(1)[OF ne refl refl rev refl \<open>revised\<close> d len "1.prems"(1) nc1 vars1 arcs1]
        obtain doms' r where
          "ac3_loop cw d1 (butlast queue @ requeue cw ?x) (changes + 1) = Inr (doms', r)"
          by auto
        with ne rev \<open>revised\<close> d False
        have "ac3_loop cw doms queue changes = Inr (doms', r)"
          by (simp add: ac3_loop.simps[of cw doms queue] Let_def)
        then show ?thesis by blast
      qed
    qed
  qed
qed

lemma all_arcs_keys:
  "(a, b) \<in> set (all_arcs cw doms) \<Longrightarrow>
     (a \<in> keys doms \<and> b \<in> set (variables cw)) \<or> (b \<in> keys doms \<and> a \<in> set (variables cw))"
  by (auto simp: all_arcs_def keys_def dest: neighbors_variables)

lemma ac3_total:
  assumes "wf_crossword cw" and "node_consistent doms" and "set (variables cw) \<subseteq> keys doms"
  shows "\<exists>doms' r. ac3 cw doms None = Inr (doms', r)"
  unfolding ac3_def using assms
  by (auto intro!: ac3_loop_total dest!: all_arcs_keys)

lemma solution_over_keys:
  assumes "solution_over cw doms a"
  shows "set (variables cw) \<subseteq> keys doms"
proof
  fix x assume "x \<in> set (variables cw)"
  with assms obtain w where "(x, w) \<in> set a"
    unfolding solution_over_def by (auto elim: valid_solution_entry)
  with assms have "dom_of doms x \<noteq> {}" unfolding solution_over_def within_def by auto
  then show "x \<in> keys doms" using keys_dom_of by blast
qed

text \<open>
  C5: on a well-formed puzzle, let a complete, consistent assignment exist over the original
  domains. Then \<open>enforce_node_consistency\<close> followed by \<open>ac3\<close> over all arcs returns, and
  after \<open>enforce_node_consistency\<close> followed by any call of \<open>ac3\<close> that returns, every word
  the assignment uses is still in the domain of its variable.
\<close>

theorem propagation_keeps_solutions:
  assumes "wf_crossword cw" and "solution_over cw doms a"
  shows "(\<exists>doms' r. ac3 cw (enforce_node_consistency doms) None = Inr (doms', r)) \<and>
         (\<forall>arcs doms' r. ac3 cw (enforce_node_consistency doms) arcs = Inr (doms', r) \<longrightarrow>
            within a doms')"
proof
  from solution_over_keys[OF assms(2)]
  have "set (variables cw) \<subseteq> keys (enforce_node_consistency doms)"
    by (simp add: keys_map_fst[OF map_fst_enforce])
  with assms(1) enforce_node_consistent
  show "\<exists>doms' r. ac3 cw (enforce_node_consistency doms) None = Inr (doms', r)"
    by (rule ac3_total)
next
  from assms(2) have sol: "valid_solution cw a" and "within a doms"
    by (simp_all add: solution_over_def)
  then have "within a (enforce_node_consistency doms)" by (rule enforce_keeps_solution)
  with assms(1) sol
  show "\<forall>arcs doms' r. ac3 cw (enforce_node_consistency doms) arcs = Inr (doms', r) \<longrightarrow>
            within a doms'"
    unfolding ac3_def using ac3_loop_keeps_solution by blast
qed

theorem propagation_keeps_solutions_witness:
  "solution_over (corner 4 [''CAT'', ''DOG'', ''COWS''])
      (init_domains (corner 4 [''CAT'', ''DOG'', ''COWS'']))
      [(across3, ''CAT''), (down 4, ''COWS'')] \<and>
   ac3 (corner 4 [''CAT'', ''DOG'', ''COWS''])
      (enforce_node_consistency (init_domains (corner 4 [''CAT'', ''DOG'', ''COWS'']))) None
     = Inr ([(across3, [''CAT'']), (down 4, [''COWS''])], True) \<and>
   within [(across3, ''CAT''), (down 4, ''COWS'')]
      [(across3, [''CAT'']), (down 4, [''COWS''])]"
proof -
  let ?cw = "corner 4 [''CAT'', ''DOG'', ''COWS'']"
  let ?a = "[(across3, ''CAT''), (down 4, ''COWS'')]"
  have wf: "wf_crossword ?cw"
    by (simp add: wf_corner)
  have ne: "across3 \<noteq> down 4"
    by code_simp
  have valid: "valid_solution ?cw ?a"
    using ne
    by (auto simp: valid_solution_def keys_def corner_def agrees_def across3_def down_def
        split: if_splits)
  have inside: "within ?a (init_domains ?cw)"
    using ne by (simp add: within_def init_domains_def corner_def dom_of_def)
  have sol: "solution_over ?cw (init_domains ?cw) ?a"
    using valid inside by (simp add: solution_over_def)
  have run: "ac3 ?cw (enforce_node_consistency (init_domains ?cw)) None
     = Inr ([(across3, [''CAT'']), (down 4, [''COWS''])], True)"
    by code_simp
  from propagation_keeps_solutions[OF wf sol] run sol show ?thesis
    by blast
qed

section \<open>Arc consistency after propagation\<close>

lemma concat_pairs_mem:
  "n \<in> set ns \<Longrightarrow>
      (v, n) \<in> set (concat (map (\<lambda>neighbour. [(v, neighbour), (neighbour, v)]) ns))"
  by (induction ns) auto

lemma all_arcs_mem:
  assumes "v \<in> keys doms" and "n \<in> set (neighbors cw v)"
  shows "(v, n) \<in> set (all_arcs cw doms)"
proof -
  from assms(1) obtain d where "(v, d) \<in> set doms" by (auto simp: keys_def)
  then show ?thesis
    unfolding all_arcs_def using concat_pairs_mem[OF assms(2), of v]
    by (induction doms) auto
qed


lemma wf_overlapD:
  assumes "wf_crossword cw" and "overlaps cw x y = Some (ix, iy)"
  shows "x \<noteq> y" and "x \<in> set (variables cw)" and "y \<in> set (variables cw)"
    and "overlaps cw y x = Some (iy, ix)" and "ix < var_length x" and "iy < var_length y"
  using assms unfolding wf_crossword_def by blast+

lemma in_set_butlast_or_last: "q \<noteq> [] \<Longrightarrow> a \<in> set q \<Longrightarrow> a \<in> set (butlast q) \<or> a = last q"
  by (cases q rule: rev_cases) auto

lemma arcs_pending_init:
  assumes "wf_crossword cw"
  shows "arcs_pending cw doms (all_arcs cw doms)"
  unfolding arcs_pending_def
proof (intro allI impI)
  fix x y ix iy
  assume ov: "overlaps cw x y = Some (ix, iy)" and xk: "x \<in> keys doms"
  from wf_overlapD[OF assms ov]
  have "y \<in> set (neighbors cw x)" by (auto simp: neighbors_def)
  from all_arcs_mem[OF xk this]
  show "(x, y) \<in> set (all_arcs cw doms) \<or> arc_ok doms x y ix iy" ..
qed

lemma revise_False_arc_ok:
  assumes "revise cw doms x y = Inr (d1, False)" and "overlaps cw x y = Some (ix, iy)"
  shows "arc_ok doms x y ix iy"
proof -
  from assms obtain dx dy where dx: "map_of doms x = Some dx" and dy: "dy = words_of doms y"
    and d1: "d1 = AList.update x (filter (supported ix iy dy) dx) doms"
    and r: "False = (\<exists>w \<in> set dx. \<not> supported ix iy dy w)"
    by (rule revise_Some)
  from r have "\<forall>w \<in> set dx. \<exists>v \<in> set dy. agrees ix iy w v"
    by (auto dest: supportedE)
  with dx dy show ?thesis by (simp add: arc_ok_def dom_of_Some dom_of_words_of[of doms y])
qed

lemma revise_made_arc_ok:
  assumes "revise cw doms x y = Inr (d1, r)" and "overlaps cw x y = Some (ix, iy)" and "x \<noteq> y"
  shows "arc_ok d1 x y ix iy"
proof -
  from assms(1,2) obtain dx dy where dx: "map_of doms x = Some dx"
    and dy: "dy = words_of doms y"
    and d1: "d1 = AList.update x (filter (supported ix iy dy) dx) doms"
    by (rule revise_Some)
  show ?thesis unfolding arc_ok_def d1 using dy assms(3)
    by (auto simp: dom_of_update dom_of_words_of[of doms y] dest: supportedE)
qed

lemma arcs_pending_same:
  assumes pend: "arcs_pending cw doms q" and ne: "q \<noteq> []"
    and rev: "revise cw doms (fst (last q)) (snd (last q)) = Inr (doms, False)"
  shows "arcs_pending cw doms (butlast q)"
  unfolding arcs_pending_def
proof (intro allI impI)
  fix x y ix iy
  assume ov: "overlaps cw x y = Some (ix, iy)" and xk: "x \<in> keys doms"
  from pend ov xk consider "(x, y) \<in> set q" | "arc_ok doms x y ix iy"
    unfolding arcs_pending_def by blast
  then show "(x, y) \<in> set (butlast q) \<or> arc_ok doms x y ix iy"
  proof cases
    case 1
    from in_set_butlast_or_last[OF ne 1] show ?thesis
    proof
      assume "(x, y) = last q"
      then have "fst (last q) = x" "snd (last q) = y" by (metis fst_conv, metis snd_conv)
      with rev ov show ?thesis using revise_False_arc_ok by blast
    qed simp
  qed simp
qed

lemma arcs_pending_shrink:
  assumes wf: "wf_crossword cw" and pend: "arcs_pending cw doms q" and ne: "q \<noteq> []"
    and rev: "revise cw doms (fst (last q)) (snd (last q)) = Inr (d1, True)"
  shows "arcs_pending cw d1 (butlast q @ requeue cw (fst (last q)))"
  unfolding arcs_pending_def
proof (intro allI impI)
  let ?x = "fst (last q)" and ?y = "snd (last q)"
  fix a b i j
  assume ov: "overlaps cw a b = Some (i, j)" and ak: "a \<in> keys d1"
  from revise_dom_of(3)[OF rev] have "keys d1 = keys doms" by (rule keys_map_fst)
  with ak have ak': "a \<in> keys doms" by simp
  from wf_overlapD[OF wf ov] have ab: "a \<noteq> b" and av: "a \<in> set (variables cw)"
    by simp_all
  note sub = revise_dom_of(1)[OF rev] and other = revise_dom_of(2)[OF rev]
  show "(a, b) \<in> set (butlast q @ requeue cw ?x) \<or> arc_ok d1 a b i j"
  proof (cases "b = ?x")
    case True
    with ov ab av have "a \<in> set (neighbors cw ?x)" by (simp add: neighbors_def)
    with True have "(a, b) \<in> set (requeue cw ?x)" unfolding requeue_def by force
    then show ?thesis by simp
  next
    case bx: False
    from pend ov ak' consider "(a, b) \<in> set q" | "arc_ok doms a b i j"
      unfolding arcs_pending_def by blast
    then show ?thesis
    proof cases
      case 1
      from in_set_butlast_or_last[OF ne 1] show ?thesis
      proof
        assume "(a, b) = last q"
        then have eq: "?x = a" "?y = b" by (metis fst_conv, metis snd_conv)
        from revise_made_arc_ok[OF rev[unfolded eq] ov ab] show ?thesis by simp
      qed simp
    next
      case 2
      have "arc_ok d1 a b i j" unfolding arc_ok_def
      proof
        fix w assume "w \<in> dom_of d1 a"
        with sub[of a] have "w \<in> dom_of doms a" by blast
        with 2 obtain v where "v \<in> dom_of doms b" "agrees i j w v"
          unfolding arc_ok_def by blast
        with other[OF bx] show "\<exists>v \<in> dom_of d1 b. agrees i j w v" by auto
      qed
      then show ?thesis by simp
    qed
  qed
qed

lemma emptied_after_revise:
  assumes rev: "revise cw doms x y = Inr (d1, True)" and d: "map_of d1 x = Some d" "d \<noteq> []"
  shows "emptied doms doms' = emptied d1 doms'"
proof -
  from d have ne1: "dom_of d1 x \<noteq> {}" by (simp add: dom_of_Some)
  with revise_True_dom[OF rev] have ne: "dom_of doms x \<noteq> {}" by blast
  have "(dom_of doms z \<noteq> {}) = (dom_of d1 z \<noteq> {})" for z
    using revise_dom_of(2)[OF rev, of z] ne ne1 by (cases "z = x") simp_all
  then show ?thesis unfolding emptied_def by simp
qed

lemma ac3_loop_arc_consistent:
  assumes "ac3_loop cw doms q c = Inr (doms', r)"
  shows "wf_crossword cw \<longrightarrow> arcs_pending cw doms q \<longrightarrow> \<not> emptied doms doms' \<longrightarrow>
         arc_consistent cw doms'"
  using assms
proof (induction rule: ac3_loop_run_induct)
  case (empty cw doms c)
  show ?case
  proof (intro impI)
    assume "arcs_pending cw doms []"
    then have "arc_ok doms x y ix iy" if "overlaps cw x y = Some (ix, iy)" for x y ix iy
      using that keys_dom_of[of x doms] unfolding arcs_pending_def arc_ok_def
      by (cases "x \<in> keys doms") auto
    then show "arc_consistent cw doms" unfolding arc_consistent_def arc_ok_def by blast
  qed
next
  case (same cw doms q c doms' r)
  then show ?case using arcs_pending_same by blast
next
  case (wipe cw doms q c d1)
  from revise_True_dom[OF wipe(2)] wipe(3)
  have "dom_of doms (fst (last q)) \<noteq> {}" "dom_of d1 (fst (last q)) = {}"
    by (auto simp: dom_of_Some)
  then have "emptied doms d1" unfolding emptied_def by blast
  then show ?case by simp
next
  case (shrink cw doms q c d1 d doms' r)
  from emptied_after_revise[OF shrink(2,3,4)] shrink(6) arcs_pending_shrink[OF _ _ shrink(1,2)]
  show ?case by blast
qed

text \<open>
  C4: on a well-formed puzzle, after a call of \<open>ac3\<close> with the default seed that returns
  without having emptied a domain, for every ordered pair \<open>(x, y)\<close> with a defined overlap
  \<open>(ix, iy)\<close> every word left in the domain of \<open>x\<close> has a word in the domain of \<open>y\<close> whose
  character at \<open>iy\<close> is its character at \<open>ix\<close>.
\<close>

theorem ac3_arc_consistent:
  assumes "wf_crossword cw" and "ac3 cw doms None = Inr (doms', r)"
    and "\<not> emptied doms doms'"
  shows "arc_consistent cw doms'"
proof -
  from assms(2) have "ac3_loop cw doms (all_arcs cw doms) 0 = Inr (doms', r)"
    by (simp add: ac3_def)
  from ac3_loop_arc_consistent[OF this] assms(1,3) arcs_pending_init[OF assms(1)]
  show ?thesis by simp
qed

theorem ac3_arc_consistent_witness:
  "ac3 (corner 4 [''CAT'', ''DOG'', ''COWS''])
      [(across3, [''CAT'', ''DOG'']), (down 4, [''COWS''])] None
     = Inr ([(across3, [''CAT'']), (down 4, [''COWS''])], True) \<and>
   arc_consistent (corner 4 [''CAT'', ''DOG'', ''COWS''])
      [(across3, [''CAT'']), (down 4, [''COWS''])]"
proof -
  let ?cw = "corner 4 [''CAT'', ''DOG'', ''COWS'']"
  let ?D = "[(across3, [''CAT'', ''DOG'']), (down 4, [''COWS''])]"
  let ?D' = "[(across3, [''CAT'']), (down 4, [''COWS''])]"
  have wf: "wf_crossword ?cw"
    by (simp add: wf_corner)
  have run: "ac3 ?cw ?D None = Inr (?D', True)"
    by code_simp
  have keep: "\<not> emptied ?D ?D'"
    by (auto simp: emptied_def dom_of_def split: if_splits)
  from ac3_arc_consistent[OF wf run keep] run show ?thesis
    by simp
qed

section \<open>Soundness of the search\<close>

lemma search_inv_update:
  "search_inv cw a \<Longrightarrow> var \<in> set (variables cw) \<Longrightarrow> search_inv cw (AList.update var val a)"
  by (simp add: search_inv_def AList.distinct_update keys_update)

lemma search_inv_delete: "search_inv cw a \<Longrightarrow> search_inv cw (AList.delete var a)"
  by (auto simp: search_inv_def AList.distinct_delete keys_delete)

lemma check_neighbours_True:
  "check_neighbours cw a key w ns = Inr True \<Longrightarrow> n \<in> set ns \<Longrightarrow> map_of a n = Some wn \<Longrightarrow>
     \<exists>i j. overlaps cw key n = Some (i, j) \<and> agrees i j w wn"
proof (induction ns)
  case Nil
  then show ?case by simp
next
  case (Cons m ns)
  show ?case
  proof (cases "map_of a m")
    case None
    with Cons show ?thesis by auto
  next
    case (Some wm)
    with Cons.prems(1) obtain i j where ov: "overlaps cw key m = Some (i, j)"
      and ag: "agrees i j w wm" and rest: "check_neighbours cw a key w ns = Inr True"
      by (auto simp: agrees_def split: option.splits if_splits)
    show ?thesis
    proof (cases "n = m")
      case True
      with Some Cons.prems(3) ov ag show ?thesis by simp
    next
      case False
      with Cons.prems(2) have "n \<in> set ns" by simp
      from Cons.IH[OF rest this Cons.prems(3)] show ?thesis .
    qed
  qed
qed

lemma consistent_loop_True:
  "consistent_loop cw a vals rest = Inr True \<Longrightarrow>
     distinct (map snd rest) \<and> set (map snd rest) \<inter> set vals = {} \<and>
     (\<forall>(key, w) \<in> set rest. length w = var_length key \<and>
         check_neighbours cw a key w (neighbors cw key) = Inr True)"
proof (induction rest arbitrary: vals)
  case Nil
  then show ?case by simp
next
  case (Cons p rest)
  obtain key w where p: "p = (key, w)" by (cases p)
  from Cons.prems p have nv: "w \<notin> set vals" and len: "var_length key = length w"
    and cn: "check_neighbours cw a key w (neighbors cw key) = Inr True"
    and rec: "consistent_loop cw a (w # vals) rest = Inr True"
    by (auto split: if_splits sum.splits)
  from Cons.IH[OF rec] nv len cn p show ?case by auto
qed

lemma consistent_True:
  assumes "consistent cw a = Inr True"
  shows "distinct (map snd a)"
    and "(key, w) \<in> set a \<Longrightarrow> length w = var_length key"
    and "(key, w) \<in> set a \<Longrightarrow> n \<in> set (neighbors cw key) \<Longrightarrow> map_of a n = Some wn \<Longrightarrow>
           \<exists>i j. overlaps cw key n = Some (i, j) \<and> agrees i j w wn"
proof -
  note c = consistent_loop_True[OF assms[unfolded consistent_def]]
  from c show "distinct (map snd a)" by simp
  from c show "length w = var_length key" if "(key, w) \<in> set a" using that by auto
  from c have "check_neighbours cw a key w (neighbors cw key) = Inr True" if "(key, w) \<in> set a"
    using that by auto
  then show "\<exists>i j. overlaps cw key n = Some (i, j) \<and> agrees i j w wn"
    if "(key, w) \<in> set a" "n \<in> set (neighbors cw key)" "map_of a n = Some wn"
    using that check_neighbours_True by blast
qed

lemma consistent_Nil: "consistent cw [] = Inr True"
  by (simp add: consistent_def)

lemma backtrack_sound:
  "backtrack cw doms a = Inr (a', b) \<Longrightarrow> search_inv cw a \<Longrightarrow>
     search_inv cw a' \<and>
     (b \<longrightarrow> assignment_complete cw a' \<and> (a' = a \<or> consistent cw a' = Inr True))"
  "try_values cw doms var vals a = Inr (a', b) \<Longrightarrow> search_inv cw a \<Longrightarrow>
     var \<in> set (variables cw) \<Longrightarrow>
     search_inv cw a' \<and> (b \<longrightarrow> assignment_complete cw a' \<and> consistent cw a' = Inr True)"
proof (induction cw doms a and cw doms var vals a arbitrary: a' b and a' b
       rule: backtrack_try_values.induct)
  case (1 cw doms a)
  show ?case
  proof (cases "assignment_complete cw a")
    case True
    with 1(2,3) show ?thesis by (simp add: backtrack.simps)
  next
    case False
    with 1(2) obtain var vals where
      sel: "select_unassigned_variable cw doms a = Inr var" and
      ord: "order_domain_values cw doms var a = Inr vals" and
      tv: "try_values cw doms var vals a = Inr (a', b)"
      by (auto simp: backtrack.simps split: sum.splits)
    from select_unassigned_variable_sound[OF sel] have "var \<in> set (variables cw)" by simp
    from 1(1)[OF False sel ord tv 1(3) this] show ?thesis by simp
  qed
next
  case (2 cw doms var a)
  then show ?case by simp
next
  case (3 cw doms var val rest a)
  let ?a1 = "AList.update var val a"
  have inv1: "search_inv cw ?a1" using 3(5,6) by (rule search_inv_update)
  from 3(4) obtain ok where ok: "consistent cw ?a1 = Inr ok"
    by (auto split: sum.splits)
  show ?case
  proof (cases ok)
    case False
    with 3(4) ok have "try_values cw doms var rest ?a1 = Inr (a', b)" by simp
    from 3(3)[OF ok False this inv1 3(6)] show ?thesis .
  next
    case True
    with 3(4) ok obtain a2 found where bt: "backtrack cw doms ?a1 = Inr (a2, found)"
      by (auto split: sum.splits)
    note ih = 3(1)[OF ok True bt inv1]
    show ?thesis
    proof (cases found)
      case True
      with 3(4) ok \<open>ok\<close> bt have "a' = a2" "b" by simp_all
      with ih True ok \<open>ok\<close> show ?thesis by auto
    next
      case False
      with 3(4) ok \<open>ok\<close> bt have
        ne: "map_of a2 var \<noteq> None" and
        tv: "try_values cw doms var rest (AList.delete var a2) = Inr (a', b)"
        by (auto split: if_splits)
      from ih have "search_inv cw (AList.delete var a2)" by (simp add: search_inv_delete)
      from 3(2)[OF ok \<open>ok\<close> bt refl False ne tv this 3(6)] show ?thesis .
    qed
  qed
qed

lemma complete_keys:
  assumes "distinct (variables cw)" and "search_inv cw a" and "assignment_complete cw a"
  shows "keys a = set (variables cw)"
proof -
  from assms(2) have d: "distinct (map fst a)" and sub: "keys a \<subseteq> set (variables cw)"
    by (simp_all add: search_inv_def)
  from d have "card (keys a) = length a"
    unfolding keys_def by (metis distinct_card length_map set_map)
  also from assms(3) have "\<dots> = length (variables cw)" by (simp add: assignment_complete_def)
  also from assms(1) have "\<dots> = card (set (variables cw))" by (simp add: distinct_card)
  finally show ?thesis using sub by (simp add: card_subset_eq)
qed

lemma consistent_complete_valid:
  assumes wf: "wf_crossword cw" and inv: "search_inv cw a"
    and complete: "assignment_complete cw a" and cons: "consistent cw a = Inr True"
  shows "valid_solution cw a"
proof -
  from wf have dv: "distinct (variables cw)" by (simp add: wf_crossword_def)
  have agree: "agrees ix iy wx wy"
    if ov: "overlaps cw x y = Some (ix, iy)" and x: "map_of a x = Some wx"
      and y: "map_of a y = Some wy" for x y ix iy wx wy
  proof -
    from wf_overlapD[OF wf ov] have "y \<in> set (neighbors cw x)"
      by (auto simp: neighbors_def)
    from consistent_True(3)[OF cons map_of_SomeD[OF x] this y] ov show ?thesis by auto
  qed
  from inv have "distinct (map fst a)" by (simp add: search_inv_def)
  moreover note complete_keys[OF dv inv complete] consistent_True(1)[OF cons]
  moreover have "\<forall>(x, w) \<in> set a. length w = var_length x"
    using consistent_True(2)[OF cons] by auto
  ultimately show ?thesis unfolding valid_solution_def using agree by blast
qed

lemma backtrack_valid:
  assumes "wf_crossword cw" and "search_inv cw a0"
    and "assignment_complete cw a0 \<longrightarrow> consistent cw a0 = Inr True"
    and "backtrack cw doms a0 = Inr (a, True)"
  shows "valid_solution cw a"
proof -
  from backtrack_sound(1)[OF assms(4,2)]
  have "search_inv cw a" "assignment_complete cw a" "a = a0 \<or> consistent cw a = Inr True"
    by auto
  with assms(3) have "consistent cw a = Inr True" by auto
  with assms(1) \<open>search_inv cw a\<close> \<open>assignment_complete cw a\<close> show ?thesis
    by (intro consistent_complete_valid)
qed

lemma search_inv_Nil: "search_inv cw []"
  by (simp add: search_inv_def keys_def)

text \<open>
  C3, as amended: on a well-formed puzzle, every assignment that \<open>solve\<close> returns as a
  solution, and every assignment that \<open>backtrack\<close> returns as a solution when it is started
  on a dictionary over the puzzle's variables that is consistent if it is already complete
  (the empty assignment is one), assigns exactly one word to every variable, each of its
  variable's length, with equal characters at every defined overlap and no word used for two
  variables. A dictionary that is already complete is returned as it is, without a check.
\<close>

theorem solution_valid:
  assumes "wf_crossword cw"
  shows "(search_inv cw a0 \<and> (assignment_complete cw a0 \<longrightarrow> consistent cw a0 = Inr True) \<and>
          backtrack cw doms a0 = Inr (a, True) \<longrightarrow> valid_solution cw a) \<and>
         (solve cw = Inr (a, True) \<longrightarrow> valid_solution cw a)"
proof (intro conjI impI)
  assume "search_inv cw a0 \<and> (assignment_complete cw a0 \<longrightarrow> consistent cw a0 = Inr True) \<and>
          backtrack cw doms a0 = Inr (a, True)"
  with assms show "valid_solution cw a" using backtrack_valid by blast
next
  assume "solve cw = Inr (a, True)"
  then obtain doms' where "backtrack cw doms' [] = Inr (a, True)"
    by (auto simp: solve_def split: sum.splits)
  with assms search_inv_Nil consistent_Nil show "valid_solution cw a"
    using backtrack_valid by blast
qed

theorem solution_valid_witness:
  "solve (corner 3 [''CAT'', ''COW'']) = Inr ([(across3, ''CAT''), (down 3, ''COW'')], True) \<and>
   backtrack (corner 3 [''CAT'', ''COW''])
      [(across3, [''CAT'', ''COW'']), (down 3, [''CAT'', ''COW''])] []
     = Inr ([(across3, ''CAT''), (down 3, ''COW'')], True) \<and>
   valid_solution (corner 3 [''CAT'', ''COW'']) [(across3, ''CAT''), (down 3, ''COW'')]"
proof -
  let ?cw = "corner 3 [''CAT'', ''COW'']"
  let ?a = "[(across3, ''CAT''), (down 3, ''COW'')]"
  have wf: "wf_crossword ?cw"
    by (simp add: wf_corner)
  have run: "solve ?cw = Inr (?a, True)"
    by code_simp
  have run': "backtrack ?cw [(across3, [''CAT'', ''COW'']), (down 3, [''CAT'', ''COW''])] []
                = Inr (?a, True)"
    by code_simp
  have start: "search_inv ?cw [] \<and> (assignment_complete ?cw [] \<longrightarrow> consistent ?cw [] = Inr True)"
    by (simp add: search_inv_Nil consistent_Nil)
  from solution_valid[OF wf, of "[]" "[(across3, [''CAT'', ''COW'']), (down 3, [''CAT'', ''COW''])]" ?a]
    run run' start
  show ?thesis
    by blast
qed

theorem backtrack_returns_complete_unchecked:
  "backtrack (corner 3 []) [(across3, [''CAT'']), (down 3, [''DOG''])]
      [(across3, ''CAT''), (down 3, ''DOG'')]
     = Inr ([(across3, ''CAT''), (down 3, ''DOG'')], True) \<and>
   \<not> valid_solution (corner 3 []) [(across3, ''CAT''), (down 3, ''DOG'')]"
proof -
  let ?cw = "corner 3 []"
  let ?a = "[(across3, ''CAT''), (down 3, ''DOG'')]"
  have run: "backtrack ?cw [(across3, [''CAT'']), (down 3, [''DOG''])] ?a = Inr (?a, True)"
    by code_simp
  have ov: "overlaps ?cw across3 (down 3) = Some (0, 0)"
    by code_simp
  have x: "map_of ?a across3 = Some ''CAT''"
    by simp
  have y: "map_of ?a (down 3) = Some ''DOG''"
    by code_simp
  have no: "\<not> agrees 0 0 ''CAT'' ''DOG''"
    by (simp add: agrees_def)
  have "\<not> valid_solution ?cw ?a"
  proof
    assume "valid_solution ?cw ?a"
    then have "\<forall>x y ix iy wx wy. overlaps ?cw x y = Some (ix, iy) \<longrightarrow>
        map_of ?a x = Some wx \<longrightarrow> map_of ?a y = Some wy \<longrightarrow> agrees ix iy wx wy"
      unfolding valid_solution_def by blast
    with ov x y have "agrees 0 0 ''CAT'' ''DOG''" by blast
    with no show False ..
  qed
  with run show ?thesis
    by blast
qed

section \<open>The undo step of the search\<close>

text \<open>
  C1: a failing call of \<open>backtrack\<close> should leave the assignment as it found it. On two
  3-letter slots that share no cell, with the single word CAT, the search started on the
  empty assignment fails and leaves the second slot assigned: the \<open>del\<close> statement is not
  reached for a value that \<open>consistent\<close> rejects.
\<close>

theorem failed_search_leaves_entry:
  "ac3 (two_rows [''CAT'']) (enforce_node_consistency (init_domains (two_rows [''CAT''])))
      None = Inr ([(across3, [''CAT'']), (across3', [''CAT''])], False) \<and>
   backtrack (two_rows [''CAT'']) [(across3, [''CAT'']), (across3', [''CAT''])] []
     = Inr ([(across3', ''CAT'')], False) \<and>
   solve (two_rows [''CAT'']) = Inr ([(across3', ''CAT'')], False)"
  by code_simp

text \<open>
  C2: the search should return a solution whenever the propagated domains admit one. On a
  3-letter ACROSS and a 3-letter DOWN slot starting in the same cell, with the words GHI,
  DEF, DXX, ABC, propagation removes nothing and DEF across with DXX down is a complete,
  consistent assignment over the domains, yet the search started on the empty assignment
  fails: the entry left behind for the DOWN slot is never tried again.
\<close>

theorem search_misses_solution:
  "ac3 (corner 3 [''GHI'', ''DEF'', ''DXX'', ''ABC''])
      (enforce_node_consistency (init_domains (corner 3 [''GHI'', ''DEF'', ''DXX'', ''ABC''])))
      None
     = Inr ([(across3, [''GHI'', ''DEF'', ''DXX'', ''ABC'']),
             (down 3, [''GHI'', ''DEF'', ''DXX'', ''ABC''])], False) \<and>
   solution_over (corner 3 [''GHI'', ''DEF'', ''DXX'', ''ABC''])
      [(across3, [''GHI'', ''DEF'', ''DXX'', ''ABC'']),
       (down 3, [''GHI'', ''DEF'', ''DXX'', ''ABC''])]
      [(across3, ''DEF''), (down 3, ''DXX'')] \<and>
   backtrack (corner 3 [''GHI'', ''DEF'', ''DXX'', ''ABC''])
      [(across3, [''GHI'', ''DEF'', ''DXX'', ''ABC'']),
       (down 3, [''GHI'', ''DEF'', ''DXX'', ''ABC''])] []
     = Inr ([(down 3, ''ABC''), (across3, ''ABC'')], False) \<and>
   solve (corner 3 [''GHI'', ''DEF'', ''DXX'', ''ABC''])
     = Inr ([(down 3, ''ABC''), (across3, ''ABC'')], False)"
proof -
  let ?cw = "corner 3 [''GHI'', ''DEF'', ''DXX'', ''ABC'']"
  let ?D = "[(across3, [''GHI'', ''DEF'', ''DXX'', ''ABC'']),
             (down 3, [''GHI'', ''DEF'', ''DXX'', ''ABC''])]"
  let ?a = "[(across3, ''DEF''), (down 3, ''DXX'')]"
  have ne: "across3 \<noteq> down 3"
    by code_simp
  have valid: "valid_solution ?cw ?a"
    using ne
    by (auto simp: valid_solution_def keys_def corner_def agrees_def across3_def down_def
        split: if_splits)
  have inside: "within ?a ?D"
    using ne by (simp add: within_def dom_of_def)
  have propagated: "ac3 ?cw (enforce_node_consistency (init_domains ?cw)) None = Inr (?D, False)"
    by code_simp
  have bt: "backtrack ?cw ?D [] = Inr ([(down 3, ''ABC''), (across3, ''ABC'')], False)"
    by code_simp
  have run: "solve ?cw = Inr ([(down 3, ''ABC''), (across3, ''ABC'')], False)"
    by code_simp
  from valid inside propagated bt run show ?thesis
    by (simp add: solution_over_def)
qed

section \<open>Variable selection\<close>

text \<open>
  What the selection loop does establish: a returned variable is an unassigned variable of
  the puzzle whose domain is not larger than that of any other unassigned variable.
\<close>

lemma select_loop_min:
  "select_loop doms a m l vars = Inr l' \<Longrightarrow> (l = [] \<longleftrightarrow> m < 0) \<Longrightarrow>
   (l \<noteq> [] \<longrightarrow> m = int (length (words_of doms (last l)))) \<Longrightarrow>
     l' \<noteq> [] \<longrightarrow>
       (\<forall>v \<in> set vars. v \<notin> keys a \<longrightarrow>
           length (words_of doms (last l')) \<le> length (words_of doms v)) \<and>
       (l \<noteq> [] \<longrightarrow> length (words_of doms (last l')) \<le> length (words_of doms (last l)))"
proof (induction vars arbitrary: m l)
  case Nil
  then show ?case by simp
next
  case (Cons v vars)
  show ?case
  proof (cases "map_of a v = None")
    case False
    then have vk: "v \<in> keys a" by (simp add: map_of_None_keys)
    from Cons.prems(1) False have "select_loop doms a m l vars = Inr l'" by simp
    from Cons.IH[OF this Cons.prems(2,3)] vk show ?thesis by simp
  next
    case True
    with Cons.prems(1) obtain d where d: "map_of doms v = Some d"
      by (auto split: option.splits)
    then have wv: "words_of doms v = d" by (simp add: words_of_def)
    show ?thesis
    proof (cases "m < 0 \<or> int (length d) < m")
      case True
      with Cons.prems(1) \<open>map_of a v = None\<close> d
      have rec: "select_loop doms a (int (length d)) (l @ [v]) vars = Inr l'"
        by (auto split: if_splits)
      have h1: "(l @ [v] = []) = (int (length d) < 0)" by simp
      have lastv: "last (l @ [v]) = v" by simp
      have h2: "l @ [v] \<noteq> [] \<longrightarrow>
          int (length d) = int (length (words_of doms (last (l @ [v]))))"
        unfolding lastv wv by blast
      have nn: "l @ [v] \<noteq> []" by simp
      note R = Cons.IH[OF rec h1 h2]
      have ih: "(\<forall>u \<in> set vars. u \<notin> keys a \<longrightarrow>
            length (words_of doms (last l')) \<le> length (words_of doms u)) \<and>
        length (words_of doms (last l')) \<le> length d" if "l' \<noteq> []"
        using R that nn unfolding lastv wv by blast
      have old: "length d \<le> length (words_of doms (last l))" if "l \<noteq> []"
      proof -
        from that Cons.prems(2) have "\<not> m < 0" by blast
        with True have "int (length d) < m" by blast
        moreover from that Cons.prems(3) have "m = int (length (words_of doms (last l)))"
          by blast
        ultimately show ?thesis by linarith
      qed
      show ?thesis
      proof (intro impI conjI ballI)
        fix u assume ne: "l' \<noteq> []" and u: "u \<in> set (v # vars)" and nk: "u \<notin> keys a"
        show "length (words_of doms (last l')) \<le> length (words_of doms u)"
        proof (cases "u = v")
          case True
          with ih[OF ne] wv show ?thesis by blast
        next
          case False
          with u have "u \<in> set vars" by simp
          with ih[OF ne] nk show ?thesis by blast
        qed
      next
        assume ne: "l' \<noteq> []" and "l \<noteq> []"
        with ih[OF ne] old show "length (words_of doms (last l')) \<le> length (words_of doms (last l))"
          by (meson le_trans)
      qed
    next
      case False
      with Cons.prems(1) \<open>map_of a v = None\<close> d
      have rec: "select_loop doms a m l vars = Inr l'"
        by (auto split: if_splits)
      from False have m0: "\<not> m < 0" and dm: "\<not> int (length d) < m" by blast+
      from m0 Cons.prems(2) have ne: "l \<noteq> []" by blast
      with Cons.prems(3) have "m = int (length (words_of doms (last l)))" by blast
      with dm have le: "length (words_of doms (last l)) \<le> length d" by linarith
      note R = Cons.IH[OF rec Cons.prems(2,3)]
      show ?thesis
      proof (intro impI conjI ballI)
        fix u assume ne': "l' \<noteq> []" and u: "u \<in> set (v # vars)" and nk: "u \<notin> keys a"
        from R ne' ne have a1: "\<forall>u \<in> set vars. u \<notin> keys a \<longrightarrow>
            length (words_of doms (last l')) \<le> length (words_of doms u)"
          and a2: "length (words_of doms (last l')) \<le> length (words_of doms (last l))"
          by blast+
        show "length (words_of doms (last l')) \<le> length (words_of doms u)"
        proof (cases "u = v")
          case True
          from a2 le have "length (words_of doms (last l')) \<le> length d" by (rule le_trans)
          with True wv show ?thesis by blast
        next
          case False
          with u have "u \<in> set vars" by simp
          with a1 nk show ?thesis by blast
        qed
      next
        assume "l' \<noteq> []" and "l \<noteq> []"
        with R show "length (words_of doms (last l')) \<le> length (words_of doms (last l))"
          by blast
      qed
    qed
  qed
qed

lemma select_unassigned_variable_mrv:
  assumes "select_unassigned_variable cw doms a = Inr var"
  shows "var \<in> set (variables cw) \<and> var \<notin> keys a \<and>
         (\<forall>v \<in> set (variables cw). v \<notin> keys a \<longrightarrow>
             length (words_of doms var) \<le> length (words_of doms v))"
proof -
  from assms obtain l where l: "select_loop doms a (- 1) [] (variables cw) = Inr l"
    and ne: "l \<noteq> []" and var: "var = last l"
    by (auto simp: select_unassigned_variable_def split: sum.splits if_splits)
  have "([] :: variable list) = [] \<longleftrightarrow> (- 1 :: int) < 0" by simp
  from select_loop_min[OF l this] ne var
  have "\<forall>v \<in> set (variables cw). v \<notin> keys a \<longrightarrow>
             length (words_of doms var) \<le> length (words_of doms v)"
    by blast
  with select_unassigned_variable_sound[OF assms] show ?thesis by simp
qed

text \<open>
  C8: among the unassigned variables with the smallest domain the one of highest degree
  should be selected. On an isolated 2-letter slot followed by two crossing slots, all with
  two words left, \<open>select_unassigned_variable\<close> returns the isolated slot, of degree 0,
  although the 3-letter slot has the same domain size and degree 1.
\<close>

theorem select_ignores_degree:
  "enforce_node_consistency (init_domains (three_slots [''AB'', ''CD'', ''EFA'', ''HIC'']))
     = [(lone2, [''AB'', ''CD'']), (row3, [''EFA'', ''HIC'']), (col2, [''AB'', ''CD''])] \<and>
   select_unassigned_variable (three_slots [''AB'', ''CD'', ''EFA'', ''HIC''])
      [(lone2, [''AB'', ''CD'']), (row3, [''EFA'', ''HIC'']), (col2, [''AB'', ''CD''])] []
     = Inr lone2 \<and>
   degree (three_slots [''AB'', ''CD'', ''EFA'', ''HIC'']) lone2 = 0 \<and>
   degree (three_slots [''AB'', ''CD'', ''EFA'', ''HIC'']) row3 = 1"
  by code_simp

end
